theory Spec2Isabelle
  imports Main
begin

section \<open>Data model\<close>

text \<open>
  The program is the Go command \<^verbatim>\<open>dotenv\<close>. Go strings are byte sequences; they are
  modelled as \<^typ>\<open>string\<close>, one \<^typ>\<open>char\<close> per byte.
\<close>

text \<open>\<^verbatim>\<open>type envvar struct { name, val string; allowsubs bool; tombstone bool }\<close>\<close>

record envvar =
  name :: string
  val :: string
  allowsubs :: bool
  tombstone :: bool

section \<open>Regular expressions of the program\<close>

text \<open>
  Go's \<^verbatim>\<open>regexp\<close> has leftmost-first (Perl) semantics. Each compiled expression of the
  program is written out as a scanner with the result of \<^verbatim>\<open>FindStringSubmatch\<close>:
  \<open>None\<close> for no match, otherwise the list of submatches, whose element 0 is the whole
  match. All character classes of the program are ASCII, so scanning bytes and scanning
  runes consume the same text.
\<close>

type_synonym regexp = "string \<Rightarrow> string list option"

text \<open>The class \<^verbatim>\<open>[^\S\n]\<close>: white space (tab, form feed, carriage return, space) but not newline.\<close>

definition hws :: "char \<Rightarrow> bool" where
  "hws c \<longleftrightarrow> c = CHR 0x09 \<or> c = CHR 0x0C \<or> c = CHR 0x0D \<or> c = CHR 0x20"

text \<open>The class \<^verbatim>\<open>\s\<close> of RE2: tab, newline, form feed, carriage return, space.\<close>

definition re_space :: "char \<Rightarrow> bool" where
  "re_space c \<longleftrightarrow> c = CHR 0x09 \<or> c = CHR 0x0A \<or> c = CHR 0x0C \<or> c = CHR 0x0D \<or> c = CHR 0x20"

text \<open>The class \<^verbatim>\<open>\w\<close> that decides \<^verbatim>\<open>\b\<close>: \<^verbatim>\<open>[0-9A-Za-z_]\<close>.\<close>

definition re_word :: "char \<Rightarrow> bool" where
  "re_word c \<longleftrightarrow>
     (let n = (of_char c :: nat) in
      (48 \<le> n \<and> n \<le> 57) \<or> (65 \<le> n \<and> n \<le> 90) \<or> n = 95 \<or> (97 \<le> n \<and> n \<le> 122))"

text \<open>The class \<^verbatim>\<open>[^\s=#]\<close> of a lax name.\<close>

definition laxnamechar :: "char \<Rightarrow> bool" where
  "laxnamechar c \<longleftrightarrow> \<not> re_space c \<and> c \<noteq> CHR ''='' \<and> c \<noteq> CHR ''#''"

definition notnl :: "char \<Rightarrow> bool" where
  "notnl c \<longleftrightarrow> c \<noteq> CHR 0x0A"

text \<open>The text matched by \<^verbatim>\<open>(\n|$)\<close> at the start of a string, when it matches.\<close>

definition eol :: "string \<Rightarrow> string option" where
  "eol s = (case s of [] \<Rightarrow> Some [] | c # _ \<Rightarrow> if c = CHR 0x0A then Some [c] else None)"

text \<open>\<^verbatim>\<open>laxcomment = ^[^\S\n]*#[^\n]*(\n|$)\<close>\<close>

definition laxcomment :: regexp where
  "laxcomment s =
     (let ws = takeWhile hws s in
      case dropWhile hws s of
        [] \<Rightarrow> None
      | c # cs \<Rightarrow>
          if c \<noteq> CHR ''#'' then None
          else (let body = takeWhile notnl cs; e = take 1 (dropWhile notnl cs)
                in Some [ws @ c # body @ e, e]))"

text \<open>\<^verbatim>\<open>laxempty = ^[^\S\n]*(\n|$)\<close>\<close>

definition laxempty :: regexp where
  "laxempty s =
     (case eol (dropWhile hws s) of
        None \<Rightarrow> None
      | Some e \<Rightarrow> Some [takeWhile hws s @ e, e])"

text \<open>\<^verbatim>\<open>laxequals = ^[^\S\n]*=[^\S\n]*\<close>\<close>

definition laxequals :: regexp where
  "laxequals s =
     (case dropWhile hws s of
        [] \<Rightarrow> None
      | c # cs \<Rightarrow>
          if c \<noteq> CHR ''='' then None
          else Some [takeWhile hws s @ c # takeWhile hws cs])"

text \<open>\<^verbatim>\<open>laxdiscard = ^([^\n]*)(?:\n|$)\<close>\<close>

definition laxdiscard :: regexp where
  "laxdiscard s =
     (let body = takeWhile notnl s in Some [body @ take 1 (dropWhile notnl s), body])"

text \<open>\<^verbatim>\<open>laxqstart = ^(['"])\<close>\<close>

definition laxqstart :: regexp where
  "laxqstart s =
     (case s of
        [] \<Rightarrow> None
      | c # _ \<Rightarrow> if c = CHR 0x27 \<or> c = CHR 0x22 then Some [[c], [c]] else None)"

text \<open>
  The group of \<^verbatim>\<open>^((?:[^\\q]|\\(?s:.))*)q\<close> for a quote character \<open>q\<close>. The two
  alternatives of the star exclude each other on their first character and neither of them
  starts with \<open>q\<close>, so giving back iterations never helps: the expression matches exactly
  when the greedy run ends in front of a \<open>q\<close>.
\<close>

fun quoted_body :: "char \<Rightarrow> string \<Rightarrow> string option" where
  "quoted_body q [] = None"
| "quoted_body q (c # cs) =
     (if c = q then Some []
      else if c = CHR 0x5C then
        (case cs of
           [] \<Rightarrow> None
         | d # ds \<Rightarrow> map_option (\<lambda>b. c # d # b) (quoted_body q ds))
      else map_option (\<lambda>b. c # b) (quoted_body q cs))"

text \<open>\<^verbatim>\<open>laxsingleq = ^((?:[^\\']|\\(?s:.))*)'\<close>\<close>

definition laxsingleq :: regexp where
  "laxsingleq s = map_option (\<lambda>b. [b @ [CHR 0x27], b]) (quoted_body (CHR 0x27) s)"

text \<open>\<^verbatim>\<open>laxdoubleq = ^((?:[^\\"]|\\(?s:.))*)"\<close>\<close>

definition laxdoubleq :: regexp where
  "laxdoubleq s = map_option (\<lambda>b. [b @ [CHR 0x22], b]) (quoted_body (CHR 0x22) s)"

text \<open>The tail \<^verbatim>\<open>[^\S\n]*([^\s=#]+)\<close> of \<^verbatim>\<open>laxID\<close>, after an already matched prefix.\<close>

definition laxID_name :: "string \<Rightarrow> string \<Rightarrow> string list option" where
  "laxID_name pre s =
     (let n = takeWhile laxnamechar (dropWhile hws s) in
      if n = [] then None else Some [pre @ takeWhile hws s @ n, n])"

text \<open>
  \<^verbatim>\<open>laxID = ^(?:[^\S\n]*export\b)?[^\S\n]*([^\s=#]+)\<close>. The optional group is greedy:
  the match with \<^verbatim>\<open>export\<close> is preferred, and the expression falls back to the match
  without it only when no name follows the keyword.
\<close>

definition laxID :: regexp where
  "laxID s =
     (let r = dropWhile hws s in
      if take 6 r = ''export'' \<and> (case drop 6 r of [] \<Rightarrow> True | c # _ \<Rightarrow> \<not> re_word c) then
        (case laxID_name (takeWhile hws s @ ''export'') (drop 6 r) of
           Some m \<Rightarrow> Some m
         | None \<Rightarrow> laxID_name [] s)
      else laxID_name [] s)"

text \<open>Whether \<^verbatim>\<open>\s+#\<close> matches at the start of a string.\<close>

definition trailer_at :: "string \<Rightarrow> bool" where
  "trailer_at s =
     (case s of
        [] \<Rightarrow> False
      | c # cs \<Rightarrow>
          re_space c \<and> (case dropWhile re_space cs of [] \<Rightarrow> False | d # _ \<Rightarrow> d = CHR ''#''))"

text \<open>
  \<^verbatim>\<open>laxtrailer = ^((?s:.)+?)\s+#\<close>: the lazy group is the shortest prefix of at least one
  character that is followed by white space and \<^verbatim>\<open>#\<close>.
\<close>

fun laxtrailer_scan :: "string \<Rightarrow> string \<Rightarrow> string list option" where
  "laxtrailer_scan pre [] = None"
| "laxtrailer_scan pre (c # cs) =
     (if trailer_at (c # cs) then Some [pre @ takeWhile re_space (c # cs) @ ''#'', pre]
      else laxtrailer_scan (pre @ [c]) cs)"

definition laxtrailer :: regexp where
  "laxtrailer s = (case s of [] \<Rightarrow> None | c # cs \<Rightarrow> laxtrailer_scan [c] cs)"

text \<open>
  \<^verbatim>\<open>laxescaped.ReplaceAllStringFunc(s, f)\<close> for \<^verbatim>\<open>laxescaped = \\(?s:.)\<close>, where \<open>f\<close>
  looks the byte after the backslash up in a table and leaves the match as it is when the
  table has no entry.
\<close>

fun laxescaped_replace :: "(char \<Rightarrow> string option) \<Rightarrow> string \<Rightarrow> string" where
  "laxescaped_replace subs (c # d # cs) =
     (if c = CHR 0x5C then
        (case subs d of Some r \<Rightarrow> r | None \<Rightarrow> [c, d]) @ laxescaped_replace subs cs
      else c # laxescaped_replace subs (d # cs))"
| "laxescaped_replace subs cs = cs"

text \<open>The tables \<^verbatim>\<open>laxsqsubs\<close> and \<^verbatim>\<open>laxdqsubs\<close>.\<close>

definition laxsqsubs :: "char \<Rightarrow> string option" where
  "laxsqsubs c =
     (if c = CHR 0x27 then Some [CHR 0x27]
      else if c = CHR 0x5C then Some [CHR 0x5C]
      else None)"

definition laxdqsubs :: "char \<Rightarrow> string option" where
  "laxdqsubs c =
     (if c = CHR 0x27 then Some [CHR 0x27]
      else if c = CHR 0x5C then Some [CHR 0x5C]
      else if c = CHR 0x22 then Some [CHR 0x22]
      else if c = CHR ''a'' then Some [CHR 0x07]
      else if c = CHR ''b'' then Some [CHR 0x08]
      else if c = CHR ''f'' then Some [CHR 0x0C]
      else if c = CHR ''n'' then Some [CHR 0x0A]
      else if c = CHR ''r'' then Some [CHR 0x0D]
      else if c = CHR ''t'' then Some [CHR 0x09]
      else if c = CHR ''v'' then Some [CHR 0x0B]
      else None)"

definition laxparsesq :: "string \<Rightarrow> string" where
  "laxparsesq s = laxescaped_replace laxsqsubs s"

definition laxparsedq :: "string \<Rightarrow> string" where
  "laxparsedq s = laxescaped_replace laxdqsubs s"

text \<open>
  \<^verbatim>\<open>trimRegexMatches(s *string, r)\<close>: the submatches, and the string with the whole match
  cut off its front. The updated \<^verbatim>\<open>*s\<close> is the third component of the result.
\<close>

definition trimRegexMatches :: "string \<Rightarrow> regexp \<Rightarrow> bool \<times> string list \<times> string" where
  "trimRegexMatches s r =
     (case r s of
        None \<Rightarrow> (False, [], s)
      | Some matches \<Rightarrow> (True, matches, drop (length (matches ! 0)) s))"

definition trimRegex :: "string \<Rightarrow> regexp \<Rightarrow> bool \<times> string" where
  "trimRegex s r = (case trimRegexMatches s r of (matched, _, s') \<Rightarrow> (matched, s'))"

section \<open>\<^verbatim>\<open>strings.TrimSpace\<close>\<close>

text \<open>
  The UTF-8 encodings of the runes for which \<^verbatim>\<open>unicode.IsSpace\<close> holds: the six ASCII
  ones, U+0085, U+00A0, U+1680, U+2000 to U+200A, U+2028, U+2029, U+202F, U+205F, U+3000.
\<close>

definition unicode_spaces :: "string list" where
  "unicode_spaces =
     [[CHR 0x09], [CHR 0x0A], [CHR 0x0B], [CHR 0x0C], [CHR 0x0D], [CHR 0x20],
      [CHR 0xC2, CHR 0x85], [CHR 0xC2, CHR 0xA0], [CHR 0xE1, CHR 0x9A, CHR 0x80],
      [CHR 0xE2, CHR 0x80, CHR 0x80], [CHR 0xE2, CHR 0x80, CHR 0x81],
      [CHR 0xE2, CHR 0x80, CHR 0x82], [CHR 0xE2, CHR 0x80, CHR 0x83],
      [CHR 0xE2, CHR 0x80, CHR 0x84], [CHR 0xE2, CHR 0x80, CHR 0x85],
      [CHR 0xE2, CHR 0x80, CHR 0x86], [CHR 0xE2, CHR 0x80, CHR 0x87],
      [CHR 0xE2, CHR 0x80, CHR 0x88], [CHR 0xE2, CHR 0x80, CHR 0x89],
      [CHR 0xE2, CHR 0x80, CHR 0x8A], [CHR 0xE2, CHR 0x80, CHR 0xA8],
      [CHR 0xE2, CHR 0x80, CHR 0xA9], [CHR 0xE2, CHR 0x80, CHR 0xAF],
      [CHR 0xE2, CHR 0x81, CHR 0x9F], [CHR 0xE3, CHR 0x80, CHR 0x80]]"

text \<open>Cut sequences of the given list off the front for as long as one of them is a prefix.\<close>

function trim_front :: "string list \<Rightarrow> string \<Rightarrow> string" where
  "trim_front seqs s =
     (case find (\<lambda>p. p \<noteq> [] \<and> take (length p) s = p) seqs of
        None \<Rightarrow> s
      | Some p \<Rightarrow> trim_front seqs (drop (length p) s))"
  by pat_completeness auto
termination
proof (relation "measure (\<lambda>(seqs, s). length s)")
  show "wf (measure (\<lambda>(seqs, s). length s))" by simp
next
  fix seqs :: "string list" and s p :: string
  assume "find (\<lambda>p. p \<noteq> [] \<and> take (length p) s = p) seqs = Some p"
  then have "p \<noteq> [] \<and> take (length p) s = p"
    by (auto simp: find_Some_iff)
  then have "p \<noteq> []" "length p \<le> length s"
    by (auto simp: take_eq_Nil dest: arg_cong [where f = length])
  then show "((seqs, drop (length p) s), (seqs, s)) \<in> measure (\<lambda>(seqs, s). length s)"
    by (cases p) auto
qed

definition TrimSpace :: "string \<Rightarrow> string" where
  "TrimSpace s = rev (trim_front (map rev unicode_spaces) (rev (trim_front unicode_spaces s)))"

section \<open>Sources, errors and the outside world\<close>

text \<open>
  \<^verbatim>\<open>type sourcetype string\<close> with its eight constants (\<^verbatim>\<open>file\<close> is written
  \<open>file_kind\<close>), and \<^verbatim>\<open>type sublevel int\<close> with its three.
\<close>

datatype sourcetype = notype | file_kind | shell | raw | osenv | laxfile | jsonmap | pid

datatype sublevel = neversub | maybesub | forcesub

text \<open>
  \<^verbatim>\<open>type varsource struct\<close>. The pointer field \<^verbatim>\<open>sublevel *sublevel\<close> is \<open>None\<close> for
  \<^verbatim>\<open>nil\<close>.
\<close>

record varsource =
  data :: string
  kind :: sourcetype
  explicit :: bool
  optional :: bool
  sublevel :: "sublevel option"

text \<open>
  The Go \<^verbatim>\<open>error\<close> values a parser returns. Errors of the operating system and of
  libraries carry their message.
\<close>

datatype pidmsg =
  TooFewParts
| FirstPartNotPid
| SecondPartNotPid
| CouldntReadPid int string

datatype perror =
  IOError string
| Unclosed string
| CouldntReadToEnd string
| JsonError string string
| PidError string pidmsg
| UnknownKind sourcetype string

text \<open>Lines written to the log or to standard error (debug output is left out).\<close>

datatype logline =
  InvalidLine string
| ErrorParsing string perror
| FailedToRead varsource perror

definition defaultsub :: "sourcetype \<Rightarrow> sublevel" where
  "defaultsub k = (if k = shell \<or> k = laxfile then maybesub else neversub)"

definition getsublevel :: "varsource \<Rightarrow> sublevel" where
  "getsublevel src = (case sublevel src of Some l \<Rightarrow> l | None \<Rightarrow> defaultsub (kind src))"

text \<open>\<^verbatim>\<open>parsevar\<close>: \<^verbatim>\<open>strings.SplitN(s, "=", 2)\<close> cuts at the first \<^verbatim>\<open>=\<close>.\<close>

definition parsevar :: "string \<Rightarrow> envvar" where
  "parsevar s =
     \<lparr>name = takeWhile (\<lambda>c. c \<noteq> CHR ''='') s,
      val = drop 1 (dropWhile (\<lambda>c. c \<noteq> CHR ''='') s),
      allowsubs = False, tombstone = False\<rparr>"

section \<open>The lax parser\<close>

text \<open>
  The \<^verbatim>\<open>HASEQ\<close> branch of \<^verbatim>\<open>parseLax\<close>, entered after \<^verbatim>\<open>laxequals\<close> has been
  trimmed: the value, its \<^verbatim>\<open>allowsubs\<close> flag and the remaining buffer, or the error the
  parser returns.
\<close>

definition lax_value :: "string \<Rightarrow> perror + (string \<times> bool \<times> string)" where
  "lax_value data0 =
     (case trimRegexMatches data0 laxqstart of
        (hasQ, qmatch, data1) \<Rightarrow>
          if hasQ then
            (let single = (qmatch ! 1 = [CHR 0x27]);
                 qkind = (if single then ''single'' else ''double'');
                 qmatcher = (if single then laxsingleq else laxdoubleq);
                 unquoter = (if single then laxparsesq else laxparsedq);
                 allowsubs = (if single then False else True)
             in case trimRegexMatches data1 qmatcher of
                  (hasMatch, qvals, data2) \<Rightarrow>
                    if \<not> hasMatch then Inl (Unclosed qkind)
                    else
                      (let val = unquoter (qvals ! 1) in
                       case trimRegex data2 laxcomment of
                         (iscomment, data3) \<Rightarrow>
                           if \<not> iscomment
                           then Inr (val, allowsubs, snd (trimRegex data3 laxdiscard))
                           else Inr (val, allowsubs, data3)))
          else
            (case trimRegexMatches data1 laxdiscard of
               (toend, lvals, data2) \<Rightarrow>
                 if \<not> toend then Inl (CouldntReadToEnd data2)
                 else
                   (let val = TrimSpace (lvals ! 1) in
                    case laxtrailer val of
                      None \<Rightarrow> Inr (val, True, data2)
                    | Some trailmatch \<Rightarrow> Inr (trailmatch ! 1, True, data2))))"

text \<open>What one pass of the \<^verbatim>\<open>for len(data) > 0\<close> loop does, with the buffer it leaves.\<close>

datatype laxstep =
  LaxSkip string
| LaxInvalid string string
| LaxVar envvar string
| LaxError perror

text \<open>The inner \<^verbatim>\<open>switch\<close> of the \<^verbatim>\<open>hasID\<close> case.\<close>

definition lax_after_id :: "string \<Rightarrow> string \<Rightarrow> string \<Rightarrow> laxstep" where
  "lax_after_id line nm data0 =
     (case trimRegex data0 laxcomment of
        (iscomment, data1) \<Rightarrow>
          if iscomment
          then LaxVar \<lparr>name = nm, val = [], allowsubs = True, tombstone = False\<rparr> data1
          else
            (case trimRegex data1 laxempty of
               (isempty, data2) \<Rightarrow>
                 if isempty
                 then LaxVar \<lparr>name = nm, val = [], allowsubs = True, tombstone = False\<rparr> data2
                 else
                   (case trimRegex data2 laxequals of
                      (iseq, data3) \<Rightarrow>
                        if iseq then
                          (case lax_value data3 of
                             Inl e \<Rightarrow> LaxError e
                           | Inr (v, a, data4) \<Rightarrow>
                               LaxVar \<lparr>name = nm, val = v, allowsubs = a, tombstone = False\<rparr> data4)
                        else LaxInvalid line (snd (trimRegex data3 laxdiscard)))))"

definition lax_iter :: "string \<Rightarrow> laxstep" where
  "lax_iter data0 =
     (let line = takeWhile notnl data0 in
      case trimRegex data0 laxcomment of
        (iscomment, data1) \<Rightarrow>
          if iscomment then LaxSkip data1
          else
            (case trimRegex data1 laxempty of
               (isempty, data2) \<Rightarrow>
                 if isempty then LaxSkip data2
                 else
                   (case trimRegexMatches data2 laxID of
                      (hasID, idmatch, data3) \<Rightarrow>
                        if hasID then lax_after_id line (idmatch ! 1) data3
                        else LaxInvalid line (snd (trimRegex data3 laxdiscard)))))"

text \<open>The buffer a pass leaves; a pass that returns an error leaves none.\<close>

definition lax_rest :: "laxstep \<Rightarrow> string" where
  "lax_rest st =
     (case st of
        LaxSkip d \<Rightarrow> d
      | LaxInvalid l d \<Rightarrow> d
      | LaxVar v d \<Rightarrow> d
      | LaxError e \<Rightarrow> [])"

lemma trimRegexMatches_le: "length (snd (snd (trimRegexMatches s r))) \<le> length s"
  by (simp add: trimRegexMatches_def split: option.splits)

lemma trimRegex_le: "length (snd (trimRegex s r)) \<le> length s"
  using trimRegexMatches_le [of s r]
  by (cases "trimRegexMatches s r") (simp add: trimRegex_def)

lemma trimRegex_le': "trimRegex s r = (b, d) \<Longrightarrow> length d \<le> length s"
  using trimRegex_le [of s r] by simp

lemma trimRegex_unmatched: "trimRegex s r = (False, d) \<Longrightarrow> d = s"
  by (auto simp: trimRegex_def trimRegexMatches_def split: option.splits)

lemma trimRegexMatches_lt:
  assumes "trimRegexMatches s r = (True, ms, d)" and "s \<noteq> []"
    and "\<And>m. r s = Some m \<Longrightarrow> m ! 0 \<noteq> []"
  shows "length d < length s"
proof -
  from assms(1) obtain m where m: "r s = Some m" "d = drop (length (m ! 0)) s"
    by (auto simp: trimRegexMatches_def split: option.splits)
  from assms(3) [OF m(1)] have "0 < length (m ! 0)" by simp
  with assms(2) m(2) show ?thesis by simp
qed

lemma trimRegex_lt:
  assumes "trimRegex s r = (True, d)" and "s \<noteq> []"
    and "\<And>m. r s = Some m \<Longrightarrow> m ! 0 \<noteq> []"
  shows "length d < length s"
proof -
  from assms(1) obtain ms where "trimRegexMatches s r = (True, ms, d)"
    by (auto simp: trimRegex_def split: prod.splits)
  from trimRegexMatches_lt [OF this assms(2) assms(3)] show ?thesis .
qed

lemma laxcomment_nonempty: "laxcomment s = Some m \<Longrightarrow> m ! 0 \<noteq> []"
  by (auto simp: laxcomment_def Let_def split: list.splits if_splits)

lemma laxID_name_nonempty: "laxID_name pre s = Some m \<Longrightarrow> m ! 0 \<noteq> []"
  by (auto simp: laxID_name_def Let_def split: if_splits)

lemma laxID_nonempty: "laxID s = Some m \<Longrightarrow> m ! 0 \<noteq> []"
  by (auto simp: laxID_def Let_def split: if_splits option.splits dest: laxID_name_nonempty)

lemma laxempty_nonempty:
  assumes "laxempty s = Some m" and "s \<noteq> []"
  shows "m ! 0 \<noteq> []"
proof
  assume e: "m ! 0 = []"
  from assms(1) obtain e' where m: "m = [takeWhile hws s @ e', e']"
    by (auto simp: laxempty_def split: option.splits)
  with e have t: "takeWhile hws s = []" and e': "e' = []" by auto
  from assms(1) m e' have "eol (dropWhile hws s) = Some []"
    by (auto simp: laxempty_def split: option.splits)
  then have "dropWhile hws s = []"
    by (auto simp: eol_def split: list.splits if_splits)
  with t have "takeWhile hws s @ dropWhile hws s = []" by simp
  with assms(2) show False by simp
qed

lemma laxdiscard_nonempty:
  assumes "laxdiscard s = Some m" and "s \<noteq> []"
  shows "m ! 0 \<noteq> []"
proof
  assume e: "m ! 0 = []"
  from assms(1) have "m ! 0 = takeWhile notnl s @ take 1 (dropWhile notnl s)"
    by (auto simp: laxdiscard_def Let_def)
  with e have t: "takeWhile notnl s = []" and d: "take 1 (dropWhile notnl s) = []" by auto
  from d have "dropWhile notnl s = []" by (simp add: take_eq_Nil)
  with t have "takeWhile notnl s @ dropWhile notnl s = []" by simp
  with assms(2) show False by simp
qed

lemma laxdiscard_matches: "fst (trimRegex s laxdiscard) = True"
  by (simp add: trimRegex_def trimRegexMatches_def laxdiscard_def Let_def)

lemma lax_value_le: "lax_value s = Inr (v, a, d) \<Longrightarrow> length d \<le> length s"
proof -
  assume h: "lax_value s = Inr (v, a, d)"
  obtain hasQ qmatch d1 where q: "trimRegexMatches s laxqstart = (hasQ, qmatch, d1)"
    by (cases "trimRegexMatches s laxqstart") auto
  have l1: "length d1 \<le> length s"
    using trimRegexMatches_le [of s laxqstart] q by simp
  show ?thesis
  proof (cases hasQ)
    case True
    define qm where "qm = (if qmatch ! 1 = [CHR 0x27] then laxsingleq else laxdoubleq)"
    obtain hasMatch qvals d2 where m: "trimRegexMatches d1 qm = (hasMatch, qvals, d2)"
      by (cases "trimRegexMatches d1 qm") auto
    have l2: "length d2 \<le> length d1"
      using trimRegexMatches_le [of d1 qm] m by simp
    obtain c d3 where c: "trimRegex d2 laxcomment = (c, d3)"
      by (cases "trimRegex d2 laxcomment") auto
    have l3: "length d3 \<le> length d2" using trimRegex_le' [OF c] .
    have l4: "length (snd (trimRegex d3 laxdiscard)) \<le> length d3" by (rule trimRegex_le)
    from h q True m c have "d = d3 \<or> d = snd (trimRegex d3 laxdiscard)"
      by (auto simp: lax_value_def Let_def qm_def split: if_splits)
    with l1 l2 l3 l4 show ?thesis by auto
  next
    case False
    obtain toend lvals d2 where m: "trimRegexMatches d1 laxdiscard = (toend, lvals, d2)"
      by (cases "trimRegexMatches d1 laxdiscard") auto
    have l2: "length d2 \<le> length d1"
      using trimRegexMatches_le [of d1 laxdiscard] m by simp
    from h q False m have "d = d2"
      by (auto simp: lax_value_def Let_def split: if_splits option.splits)
    with l1 l2 show ?thesis by simp
  qed
qed

lemma lax_after_id_le: "length (lax_rest (lax_after_id line nm s)) \<le> length s"
proof -
  obtain c d1 where c: "trimRegex s laxcomment = (c, d1)"
    by (cases "trimRegex s laxcomment") auto
  obtain e d2 where e: "trimRegex d1 laxempty = (e, d2)"
    by (cases "trimRegex d1 laxempty") auto
  obtain q d3 where q: "trimRegex d2 laxequals = (q, d3)"
    by (cases "trimRegex d2 laxequals") auto
  have l: "length d1 \<le> length s" "length d2 \<le> length d1" "length d3 \<le> length d2"
    "length (snd (trimRegex d3 laxdiscard)) \<le> length d3"
    using trimRegex_le' [OF c] trimRegex_le' [OF e] trimRegex_le' [OF q]
      trimRegex_le [of d3 laxdiscard] by auto
  have v: "\<And>v a d4. lax_value d3 = Inr (v, a, d4) \<Longrightarrow> length d4 \<le> length d3"
    by (rule lax_value_le)
  show ?thesis
    using c e q l
    by (auto simp: lax_after_id_def lax_rest_def split: sum.splits dest!: v)
qed

lemma lax_iter_shorter:
  assumes "s \<noteq> []"
  shows "length (lax_rest (lax_iter s)) < length s"
proof -
  obtain c d1 where c: "trimRegex s laxcomment = (c, d1)"
    by (cases "trimRegex s laxcomment") auto
  show ?thesis
  proof (cases c)
    case True
    with c have "trimRegex s laxcomment = (True, d1)" by simp
    then have "length d1 < length s"
      by (rule trimRegex_lt [OF _ assms laxcomment_nonempty])
    with c True show ?thesis by (simp add: lax_iter_def lax_rest_def)
  next
    case nc: False
    with c have d1: "d1 = s" by (simp add: trimRegex_unmatched)
    obtain e d2 where e: "trimRegex s laxempty = (e, d2)"
      by (cases "trimRegex s laxempty") auto
    show ?thesis
    proof (cases e)
      case True
      with e have "trimRegex s laxempty = (True, d2)" by simp
      then have "length d2 < length s"
        by (rule trimRegex_lt [OF _ assms laxempty_nonempty [OF _ assms]])
      with c nc d1 e True show ?thesis by (simp add: lax_iter_def lax_rest_def)
    next
      case ne: False
      with e have d2: "d2 = s" by (simp add: trimRegex_unmatched)
      obtain h im d3 where h: "trimRegexMatches s laxID = (h, im, d3)"
        by (cases "trimRegexMatches s laxID") auto
      show ?thesis
      proof (cases h)
        case True
        with h have "trimRegexMatches s laxID = (True, im, d3)" by simp
        then have "length d3 < length s"
          by (rule trimRegexMatches_lt [OF _ assms laxID_nonempty])
        moreover have "length (lax_rest (lax_after_id (takeWhile notnl s) (im ! 1) d3)) \<le> length d3"
          by (rule lax_after_id_le)
        ultimately show ?thesis
          using c nc d1 e ne d2 h True by (simp add: lax_iter_def Let_def)
      next
        case False
        with h have d3: "d3 = s"
          by (auto simp: trimRegexMatches_def split: option.splits)
        obtain d4 where d4: "trimRegex s laxdiscard = (True, d4)"
          using laxdiscard_matches [of s] by (cases "trimRegex s laxdiscard") auto
        then have "length d4 < length s"
          by (rule trimRegex_lt [OF _ assms laxdiscard_nonempty [OF _ assms]])
        with c nc d1 e ne d2 h False d3 d4 show ?thesis
          by (simp add: lax_iter_def Let_def lax_rest_def)
      qed
    qed
  qed
qed

text \<open>
  The loop \<^verbatim>\<open>for len(data) > 0\<close> of \<^verbatim>\<open>parseLax\<close>, with the warnings it prints when
  \<^verbatim>\<open>warn\<close> is set. It returns the warnings together with the result of the parser.
\<close>

function parseLax_loop ::
  "bool \<Rightarrow> string \<Rightarrow> envvar list \<Rightarrow> logline list \<Rightarrow> logline list \<times> (perror + envvar list)" where
  "parseLax_loop warn s vars lg =
     (if s = [] then (lg, Inr vars)
      else
        (case lax_iter s of
           LaxSkip d \<Rightarrow> parseLax_loop warn d vars lg
         | LaxInvalid line d \<Rightarrow>
             parseLax_loop warn d vars (if warn then lg @ [InvalidLine line] else lg)
         | LaxVar v d \<Rightarrow> parseLax_loop warn d (vars @ [v]) lg
         | LaxError e \<Rightarrow> (lg, Inl e)))"
  by pat_completeness auto
termination
proof (relation "measure (\<lambda>(warn, s, vars, lg). length s)")
  show "wf (measure (\<lambda>(warn, s, vars, lg). length s))" by simp
next
  fix warn :: bool and s d :: string and vars :: "envvar list" and lg :: "logline list"
  assume "s \<noteq> []" "lax_iter s = LaxSkip d"
  then show "((warn, d, vars, lg), (warn, s, vars, lg)) \<in> measure (\<lambda>(warn, s, vars, lg). length s)"
    using lax_iter_shorter [of s] by (simp add: lax_rest_def)
next
  fix warn :: bool and s line d :: string and vars :: "envvar list" and lg :: "logline list"
  assume "s \<noteq> []" "lax_iter s = LaxInvalid line d"
  then show "((warn, d, vars, if warn then lg @ [InvalidLine line] else lg), (warn, s, vars, lg))
      \<in> measure (\<lambda>(warn, s, vars, lg). length s)"
    using lax_iter_shorter [of s] by (simp add: lax_rest_def)
next
  fix warn :: bool and s d :: string and v :: envvar and vars :: "envvar list" and lg :: "logline list"
  assume "s \<noteq> []" "lax_iter s = LaxVar v d"
  then show "((warn, d, vars @ [v], lg), (warn, s, vars, lg)) \<in> measure (\<lambda>(warn, s, vars, lg). length s)"
    using lax_iter_shorter [of s] by (simp add: lax_rest_def)
qed

declare parseLax_loop.simps [simp del]

declare trim_front.simps [simp del]

section \<open>Interpolation\<close>

text \<open>
  The two expressions \<^verbatim>\<open>main\<close> can pass as \<^verbatim>\<open>varmatch\<close>:
  \<^verbatim>\<open>tointerp = \$\{([^}]+)\}\<close> and
  \<^verbatim>\<open>anyinterp = \$(?:\{([^}]+)\}|([A-Za-z0-9_.]+))\<close>.
\<close>

datatype varmatcher = tointerp | anyinterp

text \<open>The class \<^verbatim>\<open>[A-Za-z0-9_.]\<close>.\<close>

definition interpchar :: "char \<Rightarrow> bool" where
  "interpchar c \<longleftrightarrow> re_word c \<or> c = CHR ''.''"

definition notclose :: "char \<Rightarrow> bool" where
  "notclose c \<longleftrightarrow> c \<noteq> CHR ''}''"

text \<open>\<^verbatim>\<open>\{([^}]+)\}\<close> at the start of a string: the group and the text after the match.\<close>

definition interp_brace :: "string \<Rightarrow> (string \<times> string) option" where
  "interp_brace s =
     (case s of
        [] \<Rightarrow> None
      | c # cs \<Rightarrow>
          if c \<noteq> CHR ''{'' then None
          else if takeWhile notclose cs = [] then None
          else (case dropWhile notclose cs of
                  [] \<Rightarrow> None
                | _ # r \<Rightarrow> Some (takeWhile notclose cs, r)))"

text \<open>\<^verbatim>\<open>([A-Za-z0-9_.]+)\<close> at the start of a string.\<close>

definition interp_simple :: "string \<Rightarrow> (string \<times> string) option" where
  "interp_simple s =
     (if takeWhile interpchar s = [] then None
      else Some (takeWhile interpchar s, dropWhile interpchar s))"

text \<open>
  A match of \<^verbatim>\<open>varmatch\<close> that starts at the first character: the submatches and the
  text after the match. The alternative with braces is tried first.
\<close>

definition varmatch_at :: "varmatcher \<Rightarrow> string \<Rightarrow> (string list \<times> string) option" where
  "varmatch_at vm s =
     (case s of
        [] \<Rightarrow> None
      | c # cs \<Rightarrow>
          if c \<noteq> CHR ''$'' then None
          else
            (case interp_brace cs of
               Some (g, r) \<Rightarrow>
                 (case vm of
                    tointerp \<Rightarrow> Some ([c # CHR ''{'' # g @ ''}'', g], r)
                  | anyinterp \<Rightarrow> Some ([c # CHR ''{'' # g @ ''}'', g, []], r))
             | None \<Rightarrow>
                 (case vm of
                    tointerp \<Rightarrow> None
                  | anyinterp \<Rightarrow>
                      (case interp_simple cs of
                         None \<Rightarrow> None
                       | Some (g, r) \<Rightarrow> Some ([c # g, [], g], r)))))"

text \<open>\<^verbatim>\<open>varmatch.FindStringSubmatch(s)\<close>: the leftmost match.\<close>

fun FindStringSubmatch :: "varmatcher \<Rightarrow> string \<Rightarrow> string list option" where
  "FindStringSubmatch vm [] = None"
| "FindStringSubmatch vm (c # cs) =
     (case varmatch_at vm (c # cs) of
        Some (ms, r) \<Rightarrow> Some ms
      | None \<Rightarrow> FindStringSubmatch vm cs)"

lemma dropWhile_le: "length (dropWhile P xs) \<le> length xs"
  by (induction xs) auto

lemma interp_brace_shorter: "interp_brace s = Some (g, r) \<Longrightarrow> length r < length s"
proof -
  assume h: "interp_brace s = Some (g, r)"
  then obtain c cs x where s: "s = c # cs" and d: "dropWhile notclose cs = x # r"
    by (auto simp: interp_brace_def split: list.splits if_splits)
  have "length (dropWhile notclose cs) \<le> length cs" by (rule dropWhile_le)
  with s d show ?thesis by simp
qed

lemma interp_simple_shorter: "interp_simple s = Some (g, r) \<Longrightarrow> length r \<le> length s"
  by (auto simp: interp_simple_def dropWhile_le split: if_splits)

lemma varmatch_at_shorter: "varmatch_at vm s = Some (ms, r) \<Longrightarrow> length r < length s"
proof -
  assume h: "varmatch_at vm s = Some (ms, r)"
  then obtain c cs where s: "s = c # cs"
    by (cases s) (auto simp: varmatch_at_def)
  show ?thesis
  proof (cases "interp_brace cs")
    case (Some p)
    then obtain g r' where p: "interp_brace cs = Some (g, r')" by (cases p) auto
    with h s have "r = r'"
      by (auto simp: varmatch_at_def split: if_splits varmatcher.splits)
    with interp_brace_shorter [OF p] s show ?thesis by simp
  next
    case None
    with h s obtain g where "interp_simple cs = Some (g, r)"
      by (auto simp: varmatch_at_def split: if_splits varmatcher.splits option.splits)
    from interp_simple_shorter [OF this] s show ?thesis by simp
  qed
qed

text \<open>
  \<^verbatim>\<open>varmatch.ReplaceAllStringFunc(src, repl)\<close>: every match, from left to right and
  without overlap, is replaced by \<open>repl\<close> of the matched text. Neither expression
  matches the empty string.
\<close>

function ReplaceAllStringFunc :: "varmatcher \<Rightarrow> string \<Rightarrow> (string \<Rightarrow> string) \<Rightarrow> string" where
  "ReplaceAllStringFunc vm [] repl = []"
| "ReplaceAllStringFunc vm (c # cs) repl =
     (case varmatch_at vm (c # cs) of
        Some (ms, r) \<Rightarrow> repl (ms ! 0) @ ReplaceAllStringFunc vm r repl
      | None \<Rightarrow> c # ReplaceAllStringFunc vm cs repl)"
  by pat_completeness auto
termination
proof (relation "measure (\<lambda>(vm, s, repl). length s)")
  show "wf (measure (\<lambda>(vm, s, repl). length s))" by simp
next
  fix vm :: varmatcher and c :: char and cs r :: string and repl :: "string \<Rightarrow> string"
    and x :: "string list \<times> string" and ms :: "string list"
  assume "varmatch_at vm (c # cs) = Some x" "(ms, r) = x"
  then have "varmatch_at vm (c # cs) = Some (ms, r)" by simp
  from varmatch_at_shorter [OF this]
  show "((vm, r, repl), (vm, c # cs, repl)) \<in> measure (\<lambda>(vm, s, repl). length s)" by simp
next
  fix vm :: varmatcher and c :: char and cs :: string and repl :: "string \<Rightarrow> string"
  show "((vm, cs, repl), (vm, c # cs, repl)) \<in> measure (\<lambda>(vm, s, repl). length s)" by simp
qed

text \<open>
  The function literal that \<^verbatim>\<open>substitutevars\<close> passes to \<^verbatim>\<open>ReplaceAllStringFunc\<close>: it
  matches the text again, takes the first group, or the second one when the first is
  empty and there is a second, and looks the name up in \<^verbatim>\<open>vals\<close>.
\<close>

definition subst_repl :: "varmatcher \<Rightarrow> (string \<rightharpoonup> string) \<Rightarrow> string \<Rightarrow> string" where
  "subst_repl vm vals s =
     (case FindStringSubmatch vm s of
        None \<Rightarrow> []
      | Some parts \<Rightarrow>
          if length parts > 1 then
            (let nm = (if parts ! 1 = [] \<and> length parts > 2 then parts ! 2 else parts ! 1)
             in case vals nm of Some v \<Rightarrow> v | None \<Rightarrow> [])
          else [])"

text \<open>
  The outside world of one run: \<^verbatim>\<open>os.Environ()\<close>; \<^verbatim>\<open>ioutil.ReadFile\<close>; the lines
  that a \<^verbatim>\<open>bufio.Scanner\<close> yields for a file opened with \<^verbatim>\<open>os.Open\<close>; the tokenizer
  \<^verbatim>\<open>shellwords.Parser.Parse\<close>; the members of the object that \<^verbatim>\<open>json.Unmarshal\<close>
  reads, in the order in which \<^verbatim>\<open>range\<close> visits the Go map; and the bytes that
  \<^verbatim>\<open>readenv\<close> obtains for a process. \<open>Inl\<close> carries the message of the error.
\<close>

datatype jsonval =
  JNull
| JBool bool
| JNumber string
| JString string
| JArray "jsonval list"
| JObject "(string \<times> jsonval) list"

record world =
  environ :: "string list"
  readFile :: "string \<Rightarrow> string + string"
  scanLines :: "string \<Rightarrow> string + string list"
  shellwords :: "string \<Rightarrow> string + string list"
  jsonObject :: "string \<Rightarrow> string + (string \<times> jsonval) list"
  procEnviron :: "int \<Rightarrow> string + string"

text \<open>The three loops of \<^verbatim>\<open>substitutevars\<close>, and the function itself.\<close>

definition environ_vals :: "world \<Rightarrow> (string \<rightharpoonup> string)" where
  "environ_vals w =
     foldl (\<lambda>vals v. vals(name (parsevar v) \<mapsto> val (parsevar v))) Map.empty (environ w)"

definition overlay_vals :: "(string \<rightharpoonup> string) \<Rightarrow> envvar list \<Rightarrow> (string \<rightharpoonup> string)" where
  "overlay_vals vals env = foldl (\<lambda>m v. m(name v \<mapsto> val v)) vals env"

definition subst_step ::
  "varmatcher \<Rightarrow> (string \<rightharpoonup> string) \<times> envvar list \<Rightarrow> envvar \<Rightarrow> (string \<rightharpoonup> string) \<times> envvar list" where
  "subst_step vm st r =
     (case st of
        (vals, parsed) \<Rightarrow>
          (let subbed =
                 (if allowsubs r then ReplaceAllStringFunc vm (val r) (subst_repl vm vals)
                  else val r)
           in (vals(name r \<mapsto> subbed),
               parsed @ [\<lparr>name = name r, val = subbed, allowsubs = allowsubs r,
                           tombstone = tombstone r\<rparr>])))"

definition substitutevars ::
  "world \<Rightarrow> varsource \<Rightarrow> envvar list \<Rightarrow> envvar list \<Rightarrow> varmatcher \<Rightarrow> envvar list" where
  "substitutevars w src env rawvars vm =
     (let level = getsublevel src;
          raw1 = (if level \<noteq> defaultsub (kind src)
                  then map (\<lambda>r. r\<lparr>allowsubs := (level \<noteq> neversub)\<rparr>) rawvars
                  else rawvars);
          vals = overlay_vals (environ_vals w) env
      in snd (foldl (subst_step vm) (vals, []) raw1))"

section \<open>The parsers\<close>

text \<open>
  The globals that the core reads: \<^verbatim>\<open>alphanumeric\<close> and \<^verbatim>\<open>warn\<close>, and the locals
  \<^verbatim>\<open>varmatch\<close> and \<^verbatim>\<open>clearEnv\<close> that \<^verbatim>\<open>main\<close> sets from the flags.
\<close>

record config =
  alphanumeric :: bool
  warn :: bool
  varmatch :: varmatcher
  clearEnv :: bool

text \<open>\<^verbatim>\<open>parseLax\<close>: read the whole file, then run the loop.\<close>

definition parseLax :: "world \<Rightarrow> config \<Rightarrow> varsource \<Rightarrow> logline list \<times> (perror + envvar list)" where
  "parseLax w cfg src =
     (case readFile w (data src) of
        Inl err \<Rightarrow> ([], Inl (IOError err))
      | Inr rawdata \<Rightarrow> parseLax_loop (warn cfg) rawdata [] [])"

text \<open>
  \<^verbatim>\<open>comment = ^\s*#\<close>, \<^verbatim>\<open>nonstrict = ^[^\s=]+=\<close>,
  \<^verbatim>\<open>assignment = ^[A-Za-z_][A-Za-z_0-9]*=\<close> and the unanchored
  \<^verbatim>\<open>name = [A-Za-z_][A-Za-z_0-9]*\<close>, as \<^verbatim>\<open>MatchString\<close>.
\<close>

definition idstart :: "char \<Rightarrow> bool" where
  "idstart c \<longleftrightarrow>
     (let n = (of_char c :: nat) in (65 \<le> n \<and> n \<le> 90) \<or> n = 95 \<or> (97 \<le> n \<and> n \<le> 122))"

definition comment_match :: "string \<Rightarrow> bool" where
  "comment_match s = (case dropWhile re_space s of [] \<Rightarrow> False | c # _ \<Rightarrow> c = CHR ''#'')"

definition nonstrictchar :: "char \<Rightarrow> bool" where
  "nonstrictchar c \<longleftrightarrow> \<not> re_space c \<and> c \<noteq> CHR ''=''"

definition nonstrict_match :: "string \<Rightarrow> bool" where
  "nonstrict_match s =
     (takeWhile nonstrictchar s \<noteq> [] \<and>
      (case dropWhile nonstrictchar s of [] \<Rightarrow> False | c # _ \<Rightarrow> c = CHR ''=''))"

definition assignment_match :: "string \<Rightarrow> bool" where
  "assignment_match s =
     (case s of
        [] \<Rightarrow> False
      | c # cs \<Rightarrow>
          idstart c \<and> (case dropWhile re_word cs of [] \<Rightarrow> False | d # _ \<Rightarrow> d = CHR ''=''))"

definition name_match :: "string \<Rightarrow> bool" where
  "name_match s = list_ex idstart s"

definition matcher :: "config \<Rightarrow> string \<Rightarrow> bool" where
  "matcher cfg = (if alphanumeric cfg then assignment_match else nonstrict_match)"

text \<open>\<^verbatim>\<open>parseFile\<close>: one pass of the scanner loop, and the function.\<close>

definition parseFile_line :: "config \<Rightarrow> envvar list \<Rightarrow> string \<Rightarrow> envvar list" where
  "parseFile_line cfg vars line =
     (if comment_match line then vars
      else if matcher cfg line then vars @ [parsevar line]
      else vars)"

definition parseFile :: "world \<Rightarrow> config \<Rightarrow> varsource \<Rightarrow> perror + envvar list" where
  "parseFile w cfg src =
     (case scanLines w (data src) of
        Inl err \<Rightarrow> Inl (IOError err)
      | Inr lines \<Rightarrow> Inr (foldl (parseFile_line cfg) [] lines))"

text \<open>
  \<^verbatim>\<open>parseShell\<close>. The inner loop \<^verbatim>\<open>for err != nil && scanner.Scan()\<close> joins the line
  with the following ones until the tokenizer accepts it or the lines run out; it returns
  the last result of the tokenizer and the lines that are left.
\<close>

fun shell_retry :: "world \<Rightarrow> string \<Rightarrow> string list \<Rightarrow> (string + string list) \<times> string list" where
  "shell_retry w line [] = (shellwords w line, [])"
| "shell_retry w line (l # ls) =
     (case shellwords w line of
        Inr tokens \<Rightarrow> (Inr tokens, l # ls)
      | Inl err \<Rightarrow> shell_retry w (line @ CHR 0x0A # l) ls)"

lemma shell_retry_le: "length (snd (shell_retry w line ls)) \<le> length ls"
  by (induction ls arbitrary: line) (auto split: sum.splits intro: le_SucI)

text \<open>What the body of the loop does with the tokens of one accepted line.\<close>

definition shell_tokens :: "envvar list \<Rightarrow> string list \<Rightarrow> envvar list" where
  "shell_tokens vars tokens0 =
     (let tokens = (if length tokens0 > 0 \<and> tokens0 ! 0 = ''export'' then drop 1 tokens0
                    else tokens0)
      in if length tokens = 0 then vars
         else if assignment_match (tokens ! 0) then vars @ [parsevar (tokens ! 0)]
         else if name_match (tokens ! 0) \<and> length tokens > 1 then
           vars @ [\<lparr>name = tokens ! 0,
                     val = (if tokens ! 1 = ''='' \<and> length tokens > 2 then tokens ! 2
                            else tokens ! 1),
                     allowsubs = True, tombstone = False\<rparr>]
         else vars)"

function parseShell_loop :: "world \<Rightarrow> string list \<Rightarrow> envvar list \<Rightarrow> envvar list" where
  "parseShell_loop w [] vars = vars"
| "parseShell_loop w (line # rest) vars =
     (if comment_match line then parseShell_loop w rest vars
      else
        (case fst (shell_retry w line rest) of
           Inl err \<Rightarrow> parseShell_loop w (snd (shell_retry w line rest)) vars
         | Inr tokens \<Rightarrow>
             parseShell_loop w (snd (shell_retry w line rest)) (shell_tokens vars tokens)))"
  by pat_completeness auto
termination
proof (relation "measure (\<lambda>(w, ls, vars). length ls)")
  show "wf (measure (\<lambda>(w, ls, vars). length ls))" by simp
next
  fix w :: world and line :: string and rest :: "string list" and vars :: "envvar list"
  show "((w, rest, vars), (w, line # rest, vars)) \<in> measure (\<lambda>(w, ls, vars). length ls)"
    by simp
next
  fix w :: world and line :: string and rest :: "string list" and vars :: "envvar list"
  show "((w, snd (shell_retry w line rest), vars), (w, line # rest, vars))
          \<in> measure (\<lambda>(w, ls, vars). length ls)"
    using shell_retry_le [of w line rest] by simp
next
  fix w :: world and line :: string and rest :: "string list" and vars :: "envvar list"
    and tokens :: "string list"
  show "((w, snd (shell_retry w line rest), shell_tokens vars tokens), (w, line # rest, vars))
          \<in> measure (\<lambda>(w, ls, vars). length ls)"
    using shell_retry_le [of w line rest] by simp
qed

definition parseShell :: "world \<Rightarrow> varsource \<Rightarrow> perror + envvar list" where
  "parseShell w src =
     (case scanLines w (data src) of
        Inl err \<Rightarrow> Inl (IOError err)
      | Inr lines \<Rightarrow> Inr (parseShell_loop w lines []))"

definition parseOsEnviron :: "world \<Rightarrow> perror + envvar list" where
  "parseOsEnviron w = Inr (map parsevar (environ w))"

text \<open>
  \<^verbatim>\<open>parseJsonMap\<close>. \<^verbatim>\<open>json.Unmarshal\<close> into a \<^verbatim>\<open>map[string]interface{}\<close> stores
  \<^verbatim>\<open>nil\<close> for null, a \<^verbatim>\<open>bool\<close>, a \<^verbatim>\<open>float64\<close> for every number, a
  \<^verbatim>\<open>string\<close>, a slice for an array and a map for an object. \<open>goval\<close> is the dynamic
  type that the type switch inspects; the program never reads the \<^verbatim>\<open>float64\<close>, which
  is kept as the literal it was read from.
\<close>

datatype goval =
  GoNil
| GoBool bool
| GoFloat64 string
| GoString string
| GoInt int
| GoSlice "goval list"
| GoMap "(string \<times> goval) list"

fun unmarshal_value :: "jsonval \<Rightarrow> goval" where
  "unmarshal_value JNull = GoNil"
| "unmarshal_value (JBool b) = GoBool b"
| "unmarshal_value (JNumber lit) = GoFloat64 lit"
| "unmarshal_value (JString s) = GoString s"
| "unmarshal_value (JArray xs) = GoSlice (map unmarshal_value xs)"
| "unmarshal_value (JObject kvs) = GoMap (map (\<lambda>(k, v). (k, unmarshal_value v)) kvs)"

text \<open>
  The conversion \<^verbatim>\<open>string(v)\<close> of an \<^verbatim>\<open>int\<close>: the UTF-8 encoding of the rune
  \<^verbatim>\<open>v\<close>, and of U+FFFD when \<^verbatim>\<open>v\<close> is no valid rune.
\<close>

definition byte :: "int \<Rightarrow> char" where
  "byte n = char_of (nat n)"

definition string_of_rune :: "int \<Rightarrow> string" where
  "string_of_rune r =
     (if r < 0 \<or> 0x10FFFF < r \<or> (0xD800 \<le> r \<and> r \<le> 0xDFFF) then [CHR 0xEF, CHR 0xBF, CHR 0xBD]
      else if r < 0x80 then [byte r]
      else if r < 0x800 then [byte (0xC0 + r div 64), byte (0x80 + r mod 64)]
      else if r < 0x10000 then
        [byte (0xE0 + r div 4096), byte (0x80 + (r div 64) mod 64), byte (0x80 + r mod 64)]
      else
        [byte (0xF0 + r div 262144), byte (0x80 + (r div 4096) mod 64),
         byte (0x80 + (r div 64) mod 64), byte (0x80 + r mod 64)])"

text \<open>The body of the \<^verbatim>\<open>range env\<close> loop: the type switch on one value of the map.\<close>

definition json_entry :: "string \<Rightarrow> goval \<Rightarrow> envvar" where
  "json_entry k rawv =
     (case rawv of
        GoNil \<Rightarrow> \<lparr>name = k, val = [], allowsubs = False, tombstone = True\<rparr>
      | GoString v \<Rightarrow> \<lparr>name = k, val = v, allowsubs = False, tombstone = False\<rparr>
      | GoInt v \<Rightarrow> \<lparr>name = k, val = string_of_rune v, allowsubs = False, tombstone = False\<rparr>
      | _ \<Rightarrow> \<lparr>name = k, val = [], allowsubs = False, tombstone = False\<rparr>)"

definition parseJsonMap :: "world \<Rightarrow> varsource \<Rightarrow> perror + envvar list" where
  "parseJsonMap w src =
     (case jsonObject w (data src) of
        Inl err \<Rightarrow> Inl (JsonError (data src) err)
      | Inr members \<Rightarrow> Inr (map (\<lambda>(k, j). json_entry k (unmarshal_value j)) members))"

text \<open>
  \<^verbatim>\<open>parseFromPid\<close> and \<^verbatim>\<open>readenv\<close>. \<^verbatim>\<open>strings.Split\<close> with a separator of one byte,
  \<^verbatim>\<open>strings.SplitN(s, ":", 3)\<close> and \<^verbatim>\<open>strconv.ParseUint(s, 10, 32)\<close> are written out.
\<close>

fun split_on :: "char \<Rightarrow> string \<Rightarrow> string list" where
  "split_on sep [] = [[]]"
| "split_on sep (c # cs) =
     (if c = sep then [] # split_on sep cs
      else (case split_on sep cs of
              [] \<Rightarrow> [[c]]
            | p # ps \<Rightarrow> (c # p) # ps))"

fun join_with :: "char \<Rightarrow> string list \<Rightarrow> string" where
  "join_with sep [] = []"
| "join_with sep [p] = p"
| "join_with sep (p # q # ps) = p @ sep # join_with sep (q # ps)"

definition splitN3 :: "string \<Rightarrow> string list" where
  "splitN3 s =
     (case split_on (CHR '':'') s of
        a # b # c # rest \<Rightarrow> [a, b, join_with (CHR '':'') (c # rest)]
      | parts \<Rightarrow> parts)"

definition isdigit :: "char \<Rightarrow> bool" where
  "isdigit c \<longleftrightarrow> 48 \<le> (of_char c :: nat) \<and> (of_char c :: nat) \<le> 57"

definition ParseUint32 :: "string \<Rightarrow> int option" where
  "ParseUint32 s =
     (if s = [] \<or> \<not> list_all isdigit s then None
      else (let n = foldl (\<lambda>a c. 10 * a + (of_char c - 48)) (0::int) s
            in if n < 4294967296 then Some n else None))"

definition readenv :: "world \<Rightarrow> config \<Rightarrow> int \<Rightarrow> string + envvar list" where
  "readenv w cfg p =
     (case procEnviron w p of
        Inl err \<Rightarrow> Inl err
      | Inr bytes \<Rightarrow> Inr (map parsevar (filter (matcher cfg) (split_on (CHR 0x00) bytes))))"

definition parseFromPid :: "world \<Rightarrow> config \<Rightarrow> varsource \<Rightarrow> perror + envvar list" where
  "parseFromPid w cfg src =
     (let parts = splitN3 (data src) in
      if length parts < 2 then Inl (PidError (data src) TooFewParts)
      else if parts ! 0 \<noteq> ''p'' \<and> parts ! 0 \<noteq> ''pid''
      then Inl (PidError (data src) FirstPartNotPid)
      else
        (let include =
               (if length parts = 3 then
                  (let names = parts ! 2 in
                   if length names > 1 \<and> names ! 1 = CHR '':''
                   then split_on (names ! 0) (drop 2 names)
                   else split_on (CHR '','') names)
                else [])
         in case ParseUint32 (parts ! 1) of
              None \<Rightarrow> Inl (PidError (data src) SecondPartNotPid)
            | Some p \<Rightarrow>
                (case readenv w cfg p of
                   Inl err \<Rightarrow> Inl (PidError (data src) (CouldntReadPid p err))
                 | Inr allvars \<Rightarrow>
                     Inr (filter (\<lambda>v. \<not> (length include > 0 \<and> name v \<notin> set include)) allvars))))"

text \<open>\<^verbatim>\<open>varsource.parse\<close>, with the warnings that the lax parser prints.\<close>

definition parse :: "world \<Rightarrow> config \<Rightarrow> varsource \<Rightarrow> logline list \<times> (perror + envvar list)" where
  "parse w cfg src =
     (case kind src of
        file_kind \<Rightarrow> ([], parseFile w cfg src)
      | shell \<Rightarrow> ([], parseShell w src)
      | laxfile \<Rightarrow> parseLax w cfg src
      | raw \<Rightarrow> ([], Inr [parsevar (data src)])
      | osenv \<Rightarrow> ([], parseOsEnviron w)
      | jsonmap \<Rightarrow> ([], parseJsonMap w src)
      | pid \<Rightarrow> ([], parseFromPid w cfg src)
      | notype \<Rightarrow> ([], Inl (UnknownKind (kind src) (data src))))"

section \<open>Merge and dedup: \<^verbatim>\<open>uniqVarsByName\<close>\<close>

text \<open>
  The three locals of \<^verbatim>\<open>uniqVarsByName\<close>: the slice \<^verbatim>\<open>vars\<close>, the slice
  \<^verbatim>\<open>varnames\<close> and the Go map \<^verbatim>\<open>varindex\<close>.
\<close>

record uniqstate =
  u_vars :: "envvar list"
  u_varnames :: "string list"
  u_varindex :: "string \<rightharpoonup> nat"

definition uniq_init :: uniqstate where
  "uniq_init = \<lparr>u_vars = [], u_varnames = [], u_varindex = Map.empty\<rparr>"

text \<open>
  One pass of the \<^verbatim>\<open>range allvars\<close> loop. The assignment
  \<^verbatim>\<open>vars[varindex[v.name]] = v\<close> is a list update; lemma \<open>uniq_inv_foldl\<close> below shows
  that the stored index is always in range, so the Go code never panics there.
\<close>

definition uniq_step :: "uniqstate \<Rightarrow> envvar \<Rightarrow> uniqstate" where
  "uniq_step st v =
     (case u_varindex st (name v) of
        None \<Rightarrow>
          \<lparr>u_vars = u_vars st @ [v],
           u_varnames = u_varnames st @ [name v],
           u_varindex = (u_varindex st)(name v \<mapsto> length (u_vars st))\<rparr>
      | Some i \<Rightarrow>
          if tombstone v then st\<lparr>u_vars := (u_vars st)[i := v]\<rparr> else st)"

definition uniqVarsByName :: "envvar list \<Rightarrow> string list \<times> envvar list" where
  "uniqVarsByName allvars =
     (let st = foldl uniq_step uniq_init allvars in (u_varnames st, u_vars st))"

text \<open>
  The lines of \<^verbatim>\<open>main\<close> after the source loop:
  \<^verbatim>\<open>_, vars = uniqVarsByName(vars)\<close>, then the loop that keeps the entries that are not
  tombstones.
\<close>

definition setvars :: "envvar list \<Rightarrow> envvar list" where
  "setvars allvars = filter (\<lambda>v. \<not> tombstone v) (snd (uniqVarsByName allvars))"

section \<open>Priority order\<close>

text \<open>
  \<^verbatim>\<open>inittyperank\<close> fills the map \<^verbatim>\<open>typerank\<close> and sets \<^verbatim>\<open>typerankmax\<close>; its result
  is the pair of the two globals.
\<close>

definition inittyperank :: "(sourcetype \<rightharpoonup> nat) \<times> nat" where
  "inittyperank =
     foldl (\<lambda>st (i, ks). (foldl (\<lambda>m k. m(k \<mapsto> i)) (fst st) ks, i + 1))
       (Map.empty, 0)
       (enumerate 0 [[raw], [jsonmap], [osenv], [file_kind, shell, laxfile]])"

definition rank :: "sourcetype \<Rightarrow> nat" where
  "rank k = (case fst inittyperank k of Some r \<Rightarrow> r | None \<Rightarrow> snd inittyperank)"

text \<open>\<^verbatim>\<open>type priority struct { source varsource; pos int }\<close>\<close>

record priority =
  source :: varsource
  pos :: nat

definition bypriority :: "varsource list \<Rightarrow> priority list" where
  "bypriority sources = map (\<lambda>(i, s). \<lparr>source = s, pos = i\<rparr>) (enumerate 0 sources)"

text \<open>\<^verbatim>\<open>prioritysort.Less\<close>, on the two entries themselves.\<close>

definition Less :: "priority \<Rightarrow> priority \<Rightarrow> bool" where
  "Less a b =
     (if rank (kind (source a)) \<noteq> rank (kind (source b))
      then rank (kind (source a)) < rank (kind (source b))
      else pos a < pos b)"

text \<open>
  \<^verbatim>\<open>sort.Sort(p)\<close> puts the entries in increasing order of \<^verbatim>\<open>Less\<close>. The positions
  are pairwise different, so \<^verbatim>\<open>Less\<close> is a strict total order on the entries and the
  sorted sequence does not depend on the algorithm; it is computed here by insertion.
\<close>

fun insert_priority :: "priority \<Rightarrow> priority list \<Rightarrow> priority list" where
  "insert_priority x [] = [x]"
| "insert_priority x (y # ys) = (if Less x y then x # y # ys else y # insert_priority x ys)"

definition sort_priorities :: "priority list \<Rightarrow> priority list" where
  "sort_priorities ps = foldr insert_priority ps []"

text \<open>\<^verbatim>\<open>bypriority(sources).sort()\<close>\<close>

definition prioritysort :: "varsource list \<Rightarrow> varsource list" where
  "prioritysort sources = map source (sort_priorities (bypriority sources))"

section \<open>The source loop of \<^verbatim>\<open>main\<close>\<close>

text \<open>
  How the loop \<^verbatim>\<open>for i, source := range sources\<close> ends: with \<^verbatim>\<open>log.Fatalf\<close>, or
  with the accumulated \<^verbatim>\<open>vars\<close> and the command line \<^verbatim>\<open>cmd\<close>. The list argument is
  \<^verbatim>\<open>sources[i:]\<close>.
\<close>

datatype loopresult =
  LoopFatal "logline list"
| LoopDone "envvar list" "string list" "logline list"

fun process_sources ::
  "world \<Rightarrow> config \<Rightarrow> varsource list \<Rightarrow> envvar list \<Rightarrow> string list \<Rightarrow> logline list \<Rightarrow> loopresult" where
  "process_sources w cfg [] vars cmd lg = LoopDone vars cmd lg"
| "process_sources w cfg (src # rest) vars cmd lg =
     (case parse w cfg src of
        (plog, Inl err) \<Rightarrow>
          if explicit src then LoopFatal (lg @ plog @ [FailedToRead src err])
          else if \<not> optional src then LoopDone vars (map data (src # rest) @ cmd) (lg @ plog)
          else process_sources w cfg rest
                 (vars @ substitutevars w src vars [] (varmatch cfg)) cmd
                 (lg @ plog @ [ErrorParsing (data src) err])
      | (plog, Inr parsed) \<Rightarrow>
          process_sources w cfg rest
            (vars @ substitutevars w src vars parsed (varmatch cfg)) cmd (lg @ plog))"

text \<open>
  The core of \<^verbatim>\<open>main\<close>, from the classified sources and the command split off by
  \<^verbatim>\<open>--\<close> to the environment and the command line that the output and launch code
  receive.
\<close>

datatype outcome =
  Fatal "logline list"
| Completed "envvar list" "string list" "logline list"

definition osenv_source :: varsource where
  "osenv_source = \<lparr>data = [], kind = osenv, explicit = False, optional = False, sublevel = None\<rparr>"

definition main_core :: "world \<Rightarrow> config \<Rightarrow> varsource list \<Rightarrow> string list \<Rightarrow> outcome" where
  "main_core w cfg sources0 cmd0 =
     (let sources = (if \<not> clearEnv cfg then osenv_source # sources0 else sources0) in
      case process_sources w cfg (prioritysort sources) [] cmd0 [] of
        LoopFatal lg \<Rightarrow> Fatal lg
      | LoopDone vars cmd lg \<Rightarrow>
          Completed (setvars vars) (if length cmd = 0 then [''sh''] else cmd) lg)"

section \<open>The lax loop with a bound on its passes\<close>

text \<open>
  The loop of \<^verbatim>\<open>parseLax\<close> with a bound on the number of passes: \<open>None\<close> when the bound
  is used up before the buffer is empty. It serves to state that the loop ends.
\<close>

fun parseLax_fuel ::
  "nat \<Rightarrow> bool \<Rightarrow> string \<Rightarrow> envvar list \<Rightarrow> logline list \<Rightarrow> (logline list \<times> (perror + envvar list)) option" where
  "parseLax_fuel 0 wn s vars lg = (if s = [] then Some (lg, Inr vars) else None)"
| "parseLax_fuel (Suc n) wn s vars lg =
     (if s = [] then Some (lg, Inr vars)
      else
        (case lax_iter s of
           LaxSkip d \<Rightarrow> parseLax_fuel n wn d vars lg
         | LaxInvalid line d \<Rightarrow>
             parseLax_fuel n wn d vars (if wn then lg @ [InvalidLine line] else lg)
         | LaxVar v d \<Rightarrow> parseLax_fuel n wn d (vars @ [v]) lg
         | LaxError e \<Rightarrow> Some (lg, Inl e)))"

section \<open>Notions used to state the properties\<close>

text \<open>A world with an empty environment, no readable file and no process table.\<close>

definition no_world :: world where
  "no_world = \<lparr>environ = [], readFile = (\<lambda>p. Inl ''no such file''),
     scanLines = (\<lambda>p. Inl ''no such file''), shellwords = (\<lambda>s. Inr [s]),
     jsonObject = (\<lambda>s. Inl ''invalid''), procEnviron = (\<lambda>p. Inl ''no such process'')\<rparr>"

text \<open>
  The \<^verbatim>\<open>allowsubs\<close> flag of an assignment after the first loop of \<^verbatim>\<open>substitutevars\<close>:
  the flag the parser set when the level of the source is the default of its kind,
  otherwise whether the level is not \<^verbatim>\<open>neversub\<close>.
\<close>

definition eligible :: "varsource \<Rightarrow> envvar \<Rightarrow> bool" where
  "eligible src r =
     (if getsublevel src \<noteq> defaultsub (kind src) then getsublevel src \<noteq> neversub
      else allowsubs r)"

text \<open>The assignment that \<^verbatim>\<open>substitutevars\<close> appends for \<open>r\<close> when the table is \<open>vals\<close>.\<close>

definition subst_one :: "varmatcher \<Rightarrow> (string \<rightharpoonup> string) \<Rightarrow> envvar \<Rightarrow> envvar" where
  "subst_one vm vals r =
     \<lparr>name = name r,
      val = (if allowsubs r then ReplaceAllStringFunc vm (val r) (subst_repl vm vals) else val r),
      allowsubs = allowsubs r, tombstone = tombstone r\<rparr>"

text \<open>An assignment of the batch after the first loop of \<^verbatim>\<open>substitutevars\<close>.\<close>

definition apply_level :: "varsource \<Rightarrow> envvar \<Rightarrow> envvar" where
  "apply_level src r = r\<lparr>allowsubs := eligible src r\<rparr>"

text \<open>Sources and assignments of the examples.\<close>

definition lax_source :: "string \<Rightarrow> varsource" where
  "lax_source path = \<lparr>data = path, kind = laxfile, explicit = False, optional = False, sublevel = None\<rparr>"

definition var_A_foo :: envvar where
  "var_A_foo = \<lparr>name = ''A'', val = ''foo'', allowsubs = True, tombstone = False\<rparr>"

definition var_B_ref :: envvar where
  "var_B_ref = \<lparr>name = ''B'', val = ''${A}bar'', allowsubs = True, tombstone = False\<rparr>"

text \<open>
  A lax source with the level \<^verbatim>\<open>forcesub\<close>, a file with one single-quoted value, a world
  whose environment is \<^verbatim>\<open>A=foo\<close> and in which every file reads as that file, and the
  settings of \<^verbatim>\<open>main\<close> when no flag is given.
\<close>

definition forced_lax_source :: "string \<Rightarrow> varsource" where
  "forced_lax_source path = \<lparr>data = path, kind = laxfile, explicit = False, optional = False, sublevel = Some forcesub\<rparr>"

definition single_quoted_file :: string where
  "single_quoted_file = ''B='' @ [CHR 0x27] @ ''${A}bar'' @ [CHR 0x27]"

definition world_A_foo :: world where
  "world_A_foo = no_world\<lparr>environ := [''A=foo''], readFile := (\<lambda>p. Inr single_quoted_file)\<rparr>"

definition default_config :: config where
  "default_config = \<lparr>alphanumeric = False, warn = True, varmatch = anyinterp, clearEnv = False\<rparr>"

text \<open>
  The two files of the interpolation example, \<^verbatim>\<open>A=foo\<close> followed by \<^verbatim>\<open>B="${A}bar"\<close>
  and by \<^verbatim>\<open>B='${A}bar'\<close>, the assignments they lead to, and a world that holds both.
\<close>

definition double_quoted_file :: string where
  "double_quoted_file = ''A=foo'' @ [CHR 0x0A] @ ''B='' @ [CHR 0x22] @ ''${A}bar'' @ [CHR 0x22]"

definition two_line_single_quoted_file :: string where
  "two_line_single_quoted_file = ''A=foo'' @ [CHR 0x0A] @ ''B='' @ [CHR 0x27] @ ''${A}bar'' @ [CHR 0x27]"

definition var_B_literal :: envvar where
  "var_B_literal = \<lparr>name = ''B'', val = ''${A}bar'', allowsubs = False, tombstone = False\<rparr>"

definition var_B_foobar :: envvar where
  "var_B_foobar = \<lparr>name = ''B'', val = ''foobar'', allowsubs = True, tombstone = False\<rparr>"

definition world_two_files :: world where
  "world_two_files =
     no_world\<lparr>environ := [''A=other'', ''HOME=/root''],
               readFile := (\<lambda>p. if p = ''dq.env'' then Inr double_quoted_file
                                 else if p = ''sq.env'' then Inr two_line_single_quoted_file
                                 else Inl ''no such file'')\<rparr>"

text \<open>A raw source, and the assignment \<^verbatim>\<open>A=1\<close> as \<^verbatim>\<open>parsevar\<close> returns it.\<close>

definition raw_source :: "string \<Rightarrow> varsource" where
  "raw_source s = \<lparr>data = s, kind = raw, explicit = False, optional = False, sublevel = None\<rparr>"

definition var_A_1 :: envvar where
  "var_A_1 = \<lparr>name = ''A'', val = ''1'', allowsubs = False, tombstone = False\<rparr>"

text \<open>The entry that \<^verbatim>\<open>varindex\<close> records for the name is a tombstone.\<close>

definition has_tombstone :: "string \<Rightarrow> uniqstate \<Rightarrow> bool" where
  "has_tombstone n st \<longleftrightarrow>
     (case u_varindex st n of None \<Rightarrow> False | Some i \<Rightarrow> tombstone (u_vars st ! i))"

text \<open>
  A world whose files read \<^verbatim>\<open>A=2\<close>; the JSON source \<^verbatim>\<open>{"A": null}\<close>; and a world whose
  files read \<^verbatim>\<open>A=x\<close> and whose JSON decoder reads that source. In both the environment
  is \<^verbatim>\<open>A=0\<close>.
\<close>

definition world_file_A_2 :: world where
  "world_file_A_2 = no_world\<lparr>environ := [''A=0''], readFile := (\<lambda>p. Inr ''A=2'')\<rparr>"

definition json_null_source :: varsource where
  "json_null_source =
     \<lparr>data = ''{'' @ [CHR 0x22] @ ''A'' @ [CHR 0x22] @ '': null}'', kind = jsonmap,
      explicit = False, optional = False, sublevel = None\<rparr>"

definition world_file_A_x :: world where
  "world_file_A_x =
     no_world\<lparr>environ := [''A=0''], readFile := (\<lambda>p. Inr ''A=x''),
               jsonObject := (\<lambda>s. if s = data json_null_source then Inr [(''A'', JNull)]
                                   else Inl ''invalid'')\<rparr>"








section \<open>Properties of merge and dedup\<close>

definition uniq_inv :: "uniqstate \<Rightarrow> bool" where
  "uniq_inv st \<longleftrightarrow>
     distinct (map name (u_vars st)) \<and>
     (\<forall>n i. u_varindex st n = Some i \<longrightarrow> i < length (u_vars st) \<and> name (u_vars st ! i) = n) \<and>
     (\<forall>v \<in> set (u_vars st). u_varindex st (name v) \<noteq> None)"

lemma uniq_inv_init: "uniq_inv uniq_init"
  by (simp add: uniq_inv_def uniq_init_def)

lemma map_name_update_same:
  "i < length xs \<Longrightarrow> name (xs ! i) = name v \<Longrightarrow> map name (xs[i := v]) = map name xs"
  by (simp add: map_update list_update_same_conv)

lemma uniq_inv_step:
  assumes "uniq_inv st"
  shows "uniq_inv (uniq_step st v)"
proof (cases "u_varindex st (name v)")
  case None
  with assms have fresh: "name v \<notin> set (map name (u_vars st))"
    by (auto simp: uniq_inv_def)
  have step: "uniq_step st v =
      \<lparr>u_vars = u_vars st @ [v], u_varnames = u_varnames st @ [name v],
       u_varindex = (u_varindex st)(name v \<mapsto> length (u_vars st))\<rparr>"
    using None by (simp add: uniq_step_def)
  have old: "\<And>n i. u_varindex st n = Some i \<Longrightarrow>
                 i < length (u_vars st) \<and> name (u_vars st ! i) = n"
    using assms by (simp add: uniq_inv_def)
  have d: "distinct (map name (u_vars st @ [v]))"
    using assms fresh by (simp add: uniq_inv_def)
  have idx: "\<forall>n i. ((u_varindex st)(name v \<mapsto> length (u_vars st))) n = Some i \<longrightarrow>
               i < length (u_vars st @ [v]) \<and> name ((u_vars st @ [v]) ! i) = n"
  proof (intro allI impI)
    fix n i
    assume ni: "((u_varindex st)(name v \<mapsto> length (u_vars st))) n = Some i"
    show "i < length (u_vars st @ [v]) \<and> name ((u_vars st @ [v]) ! i) = n"
    proof (cases "n = name v")
      case True
      with ni have "i = length (u_vars st)" by simp
      with True show ?thesis by simp
    next
      case False
      with ni have "u_varindex st n = Some i" by simp
      from old [OF this] show ?thesis by (simp add: nth_append)
    qed
  qed
  have dom: "\<forall>x \<in> set (u_vars st @ [v]).
               ((u_varindex st)(name v \<mapsto> length (u_vars st))) (name x) \<noteq> None"
    using assms by (auto simp: uniq_inv_def)
  show ?thesis
    unfolding step uniq_inv_def using d idx dom by simp
next
  case (Some i)
  with assms have i: "i < length (u_vars st)" "name (u_vars st ! i) = name v"
    by (auto simp: uniq_inv_def)
  show ?thesis
  proof (cases "tombstone v")
    case False
    with Some assms show ?thesis by (simp add: uniq_step_def)
  next
    case True
    have step: "uniq_step st v = st\<lparr>u_vars := (u_vars st)[i := v]\<rparr>"
      using Some True by (simp add: uniq_step_def)
    have names: "map name ((u_vars st)[i := v]) = map name (u_vars st)"
      using i by (rule map_name_update_same)
    have d: "distinct (map name ((u_vars st)[i := v]))"
      using assms names by (simp add: uniq_inv_def)
    have idx: "\<forall>n j. u_varindex st n = Some j \<longrightarrow>
                 j < length ((u_vars st)[i := v]) \<and> name ((u_vars st)[i := v] ! j) = n"
    proof (intro allI impI)
      fix n j assume nj: "u_varindex st n = Some j"
      with assms have j: "j < length (u_vars st)" "name (u_vars st ! j) = n"
        by (auto simp: uniq_inv_def)
      have "name ((u_vars st)[i := v] ! j) = map name ((u_vars st)[i := v]) ! j"
        using j by simp
      also have "\<dots> = n" using names j by simp
      finally show "j < length ((u_vars st)[i := v]) \<and> name ((u_vars st)[i := v] ! j) = n"
        using j by simp
    qed
    have dom: "\<forall>x \<in> set ((u_vars st)[i := v]). u_varindex st (name x) \<noteq> None"
    proof
      fix x assume "x \<in> set ((u_vars st)[i := v])"
      then have "name x \<in> set (map name ((u_vars st)[i := v]))" by simp
      then have "name x \<in> set (map name (u_vars st))" using names by simp
      then show "u_varindex st (name x) \<noteq> None"
        using assms by (auto simp: uniq_inv_def)
    qed
    show ?thesis
      unfolding step uniq_inv_def using d idx dom by simp
  qed
qed

lemma uniq_inv_foldl: "uniq_inv st \<Longrightarrow> uniq_inv (foldl uniq_step st xs)"
  by (induction xs arbitrary: st) (simp_all add: uniq_inv_step)

lemma uniq_vars_distinct: "distinct (map name (snd (uniqVarsByName allvars)))"
  using uniq_inv_foldl [OF uniq_inv_init, of allvars]
  by (simp add: uniqVarsByName_def Let_def uniq_inv_def)

text \<open>
  Claim C1. For every input stream of assignments, the final mapping that \<^verbatim>\<open>main\<close>
  builds with \<^verbatim>\<open>uniqVarsByName\<close> followed by the removal of tombstones has no two
  assignments with the same name and holds no tombstone.
\<close>

theorem merge_dedup_distinct_no_tombstone:
  "distinct (map name (setvars allvars)) \<and> filter tombstone (setvars allvars) = []"
proof
  show "distinct (map name (setvars allvars))"
    unfolding setvars_def
    by (rule distinct_map_filter) (rule uniq_vars_distinct)
  show "filter tombstone (setvars allvars) = []"
    by (simp add: setvars_def filter_empty_conv)
qed

section \<open>Termination of the lax parser\<close>

lemma parseLax_fuel_enough:
  "length s \<le> n \<Longrightarrow> parseLax_fuel n wn s vars lg = Some (parseLax_loop wn s vars lg)"
proof (induction n arbitrary: s vars lg)
  case 0
  then show ?case by (simp add: parseLax_loop.simps)
next
  case (Suc n)
  show ?case
  proof (cases "s = []")
    case True
    then show ?thesis by (simp add: parseLax_loop.simps)
  next
    case False
    from lax_iter_shorter [OF False] Suc.prems
    have le: "length (lax_rest (lax_iter s)) \<le> n" by simp
    show ?thesis
    proof (cases "lax_iter s")
      case (LaxSkip d)
      with le have "length d \<le> n" by (simp add: lax_rest_def)
      from Suc.IH [OF this] False LaxSkip show ?thesis
        by (simp add: parseLax_loop.simps [of wn s])
    next
      case (LaxInvalid line d)
      with le have "length d \<le> n" by (simp add: lax_rest_def)
      from Suc.IH [OF this] False LaxInvalid show ?thesis
        by (simp add: parseLax_loop.simps [of wn s])
    next
      case (LaxVar v d)
      with le have "length d \<le> n" by (simp add: lax_rest_def)
      from Suc.IH [OF this] False LaxVar show ?thesis
        by (simp add: parseLax_loop.simps [of wn s])
    next
      case (LaxError e)
      with False show ?thesis by (simp add: parseLax_loop.simps [of wn s])
    qed
  qed
qed

text \<open>
  Claim C10. \<^verbatim>\<open>parseLax\<close> terminates on every input: each pass of its loop over a
  non-empty buffer leaves a strictly shorter buffer, so as many passes as the buffer has
  characters are enough for the loop to return.
\<close>

theorem parseLax_terminates:
  "(s \<noteq> [] \<longrightarrow> length (lax_rest (lax_iter s)) < length s) \<and>
   parseLax_fuel (length s) wn s vars lg = Some (parseLax_loop wn s vars lg)"
  using lax_iter_shorter [of s] parseLax_fuel_enough [of s "length s" wn vars lg] by simp

lemma parseLax_loop_example: "parseLax_loop True (''A=1'' @ [CHR 0x0A] @ ''=x'') [] [] = 
   ([InvalidLine ''=x''], Inr [\<lparr>name = ''A'', val = ''1'', allowsubs = True, tombstone = False\<rparr>])"
  by code_simp

theorem parseLax_terminates_witness:
  "length (lax_rest (lax_iter (''A=1'' @ [CHR 0x0A] @ ''=x''))) < length (''A=1'' @ [CHR 0x0A] @ ''=x'') \<and>
   parseLax_fuel (length (''A=1'' @ [CHR 0x0A] @ ''=x'')) True (''A=1'' @ [CHR 0x0A] @ ''=x'') [] [] =
     Some ([InvalidLine ''=x''], Inr [\<lparr>name = ''A'', val = ''1'', allowsubs = True, tombstone = False\<rparr>])"
  using parseLax_terminates [of "''A=1'' @ [CHR 0x0A] @ ''=x''" True "[]" "[]"]
  unfolding parseLax_loop_example by simp

section \<open>The JSON source\<close>

lemma json_entry_null:
  "json_entry k (unmarshal_value JNull) = \<lparr>name = k, val = [], allowsubs = False, tombstone = True\<rparr>"
  by (simp add: json_entry_def)

lemma json_entry_string:
  "json_entry k (unmarshal_value (JString s)) =
     \<lparr>name = k, val = s, allowsubs = False, tombstone = False\<rparr>"
  by (simp add: json_entry_def)

lemma json_entry_other:
  "json_entry k (unmarshal_value (JBool b)) = \<lparr>name = k, val = [], allowsubs = False, tombstone = False\<rparr>"
  "json_entry k (unmarshal_value (JArray xs)) = \<lparr>name = k, val = [], allowsubs = False, tombstone = False\<rparr>"
  "json_entry k (unmarshal_value (JObject kvs)) = \<lparr>name = k, val = [], allowsubs = False, tombstone = False\<rparr>"
  by (simp_all add: json_entry_def)

lemma parseJsonMap_error:
  "jsonObject w (data src) = Inl err \<Longrightarrow> parseJsonMap w src = Inl (JsonError (data src) err)"
  by (simp add: parseJsonMap_def)

text \<open>
  Claim C7 says that a JSON number yields an assignment whose value is the number as a
  string. The type switch of \<^verbatim>\<open>parseJsonMap\<close> has a case for \<^verbatim>\<open>int\<close>, but
  \<^verbatim>\<open>json.Unmarshal\<close> stores every number as a \<^verbatim>\<open>float64\<close>, so no case applies and
  the value stays empty: for the object \<^verbatim>\<open>{"A": 1}\<close> the parser returns \<^verbatim>\<open>A\<close> with
  the empty value.
\<close>

theorem parseJsonMap_number_empty:
  "json_entry k (unmarshal_value (JNumber lit)) =
     \<lparr>name = k, val = [], allowsubs = False, tombstone = False\<rparr> \<and>
   parseJsonMap (w\<lparr>jsonObject := (\<lambda>s. Inr [(''A'', JNumber ''1'')])\<rparr>) src =
     Inr [\<lparr>name = ''A'', val = [], allowsubs = False, tombstone = False\<rparr>]"
  by (simp add: json_entry_def parseJsonMap_def)

section \<open>Interpolation of one batch\<close>

lemma subst_step_one:
  "subst_step vm (vals, acc) r =
     (vals(name (subst_one vm vals r) \<mapsto> val (subst_one vm vals r)), acc @ [subst_one vm vals r])"
  by (simp add: subst_step_def subst_one_def Let_def)

lemma overlay_vals_Cons: "overlay_vals vals (v # vs) = overlay_vals (vals(name v \<mapsto> val v)) vs"
  by (simp add: overlay_vals_def)

lemma overlay_vals_append: "overlay_vals vals (xs @ ys) = overlay_vals (overlay_vals vals xs) ys"
  by (simp add: overlay_vals_def)

lemma subst_foldl_acc:
  "foldl (subst_step vm) (vals, acc) rs =
     (overlay_vals vals (snd (foldl (subst_step vm) (vals, []) rs)),
      acc @ snd (foldl (subst_step vm) (vals, []) rs))"
proof (induction rs arbitrary: vals acc)
  case Nil
  show ?case by (simp add: overlay_vals_def)
next
  case (Cons r rs)
  let ?o = "subst_one vm vals r"
  let ?v = "vals(name ?o \<mapsto> val ?o)"
  have a: "foldl (subst_step vm) (vals, acc) (r # rs) = foldl (subst_step vm) (?v, acc @ [?o]) rs"
    by (simp add: subst_step_one)
  have b: "foldl (subst_step vm) (vals, []) (r # rs) = foldl (subst_step vm) (?v, [?o]) rs"
    by (simp add: subst_step_one)
  show ?case
    unfolding a b
    by (subst Cons.IH [of ?v "acc @ [?o]"], subst (1 2) Cons.IH [of ?v "[?o]"])
       (simp add: overlay_vals_Cons)
qed

lemma subst_foldl_append:
  "snd (foldl (subst_step vm) (vals, []) (xs @ ys)) =
     snd (foldl (subst_step vm) (vals, []) xs) @
     snd (foldl (subst_step vm) (overlay_vals vals (snd (foldl (subst_step vm) (vals, []) xs)), []) ys)"
proof -
  have "foldl (subst_step vm) (vals, []) (xs @ ys) =
          foldl (subst_step vm) (foldl (subst_step vm) (vals, []) xs) ys" by simp
  also have "foldl (subst_step vm) (vals, []) xs =
      (overlay_vals vals (snd (foldl (subst_step vm) (vals, []) xs)),
       snd (foldl (subst_step vm) (vals, []) xs))"
    using subst_foldl_acc [of vm vals "[]" xs] by simp
  finally show ?thesis
    by (subst (asm) subst_foldl_acc) simp
qed

lemma subst_foldl_length: "length (snd (foldl (subst_step vm) (vals, []) rs)) = length rs"
proof (induction rs arbitrary: vals)
  case Nil show ?case by simp
next
  case (Cons r rs)
  have "foldl (subst_step vm) (vals, []) (r # rs) =
        foldl (subst_step vm) (vals(name (subst_one vm vals r) \<mapsto> val (subst_one vm vals r)), [subst_one vm vals r]) rs"
    by (simp add: subst_step_one)
  then show ?case
    by (subst (asm) subst_foldl_acc) (simp add: Cons.IH)
qed

lemma subst_foldl_Cons:
  "snd (foldl (subst_step vm) (vals, []) (r # rs)) =
     subst_one vm vals r #
     snd (foldl (subst_step vm) (vals(name r \<mapsto> val (subst_one vm vals r)), []) rs)"
proof -
  have "foldl (subst_step vm) (vals, []) (r # rs) =
        foldl (subst_step vm) (vals(name (subst_one vm vals r) \<mapsto> val (subst_one vm vals r)), [subst_one vm vals r]) rs"
    by (simp add: subst_step_one)
  then show ?thesis
    by (subst (asm) subst_foldl_acc) (simp add: subst_one_def)
qed

lemma substitutevars_foldl:
  "substitutevars w src env rs vm =
     snd (foldl (subst_step vm) (overlay_vals (environ_vals w) env, []) (map (apply_level src) rs))"
proof (cases "getsublevel src \<noteq> defaultsub (kind src)")
  case True
  then have "(\<lambda>r. r\<lparr>allowsubs := (getsublevel src \<noteq> neversub)\<rparr>) = apply_level src"
    by (intro ext) (simp add: apply_level_def eligible_def)
  with True show ?thesis by (simp add: substitutevars_def Let_def)
next
  case False
  then have "map (apply_level src) rs = rs"
    by (simp add: apply_level_def eligible_def map_idI)
  with False show ?thesis by (simp add: substitutevars_def Let_def)
qed

lemma substitutevars_append:
  "substitutevars w src env (xs @ ys) vm =
     substitutevars w src env xs vm @
     snd (foldl (subst_step vm)
            (overlay_vals (overlay_vals (environ_vals w) env) (substitutevars w src env xs vm), [])
            (map (apply_level src) ys))"
  by (simp only: substitutevars_foldl map_append subst_foldl_append)

lemma substitutevars_length: "length (substitutevars w src env rs vm) = length rs"
  by (simp add: substitutevars_foldl subst_foldl_length)

lemma substitutevars_Nil: "substitutevars w src env [] vm = []"
  by (simp add: substitutevars_foldl)

text \<open>
  Claim C4, as amended. When the batch of one source is interpolated, the table used for
  an assignment is the OS environment, overlaid with the assignments accumulated from the
  earlier sources, overlaid with the already interpolated assignments that stand before it
  in the same batch; the result for an assignment does not depend on the assignments that
  follow it in the batch.
\<close>

theorem substitutevars_lookup_table:
  "substitutevars w src env (pre @ r # post) vm ! length pre =
     \<lparr>name = name r,
      val = (if eligible src r
             then ReplaceAllStringFunc vm (val r)
                    (subst_repl vm
                       (overlay_vals (overlay_vals (environ_vals w) env)
                          (substitutevars w src env pre vm)))
             else val r),
      allowsubs = eligible src r, tombstone = tombstone r\<rparr> \<and>
   take (length pre) (substitutevars w src env (pre @ post) vm) = substitutevars w src env pre vm"
proof
  have "substitutevars w src env (pre @ r # post) vm ! length pre =
          subst_one vm (overlay_vals (overlay_vals (environ_vals w) env)
                          (substitutevars w src env pre vm)) (apply_level src r)"
  proof -
    let ?S = "substitutevars w src env pre vm"
    let ?V = "overlay_vals (overlay_vals (environ_vals w) env) ?S"
    have "substitutevars w src env (pre @ r # post) vm =
            ?S @ subst_one vm ?V (apply_level src r) #
              snd (foldl (subst_step vm)
                     (?V(name (apply_level src r) \<mapsto> val (subst_one vm ?V (apply_level src r))), [])
                     (map (apply_level src) post))"
      by (simp only: substitutevars_append [of w src env pre] list.map subst_foldl_Cons)
    then have "substitutevars w src env (pre @ r # post) vm ! length ?S =
                 subst_one vm ?V (apply_level src r)"
      by (simp only: nth_append_length)
    then show ?thesis by (simp only: substitutevars_length)
  qed
  then show "substitutevars w src env (pre @ r # post) vm ! length pre =
     \<lparr>name = name r,
      val = (if eligible src r
             then ReplaceAllStringFunc vm (val r)
                    (subst_repl vm
                       (overlay_vals (overlay_vals (environ_vals w) env)
                          (substitutevars w src env pre vm)))
             else val r),
      allowsubs = eligible src r, tombstone = tombstone r\<rparr>"
    by (simp add: subst_one_def apply_level_def)
  show "take (length pre) (substitutevars w src env (pre @ post) vm) = substitutevars w src env pre vm"
    by (simp add: substitutevars_append [of w src env pre] substitutevars_length)
qed

lemma same_batch_eval:
  "\<lparr>name = name var_B_ref,
      val = (if eligible (lax_source ''.env'') var_B_ref
             then ReplaceAllStringFunc anyinterp (val var_B_ref)
                    (subst_repl anyinterp
                       (overlay_vals (overlay_vals (environ_vals no_world) [])
                          (substitutevars no_world (lax_source ''.env'') [] [var_A_foo] anyinterp)))
             else val var_B_ref),
      allowsubs = eligible (lax_source ''.env'') var_B_ref, tombstone = tombstone var_B_ref\<rparr>
   = \<lparr>name = ''B'', val = ''foobar'', allowsubs = True, tombstone = False\<rparr>"
  by code_simp

theorem substitutevars_lookup_table_witness:
  "substitutevars no_world (lax_source ''.env'') [] [var_A_foo, var_B_ref] anyinterp ! 1 =
     \<lparr>name = ''B'', val = ''foobar'', allowsubs = True, tombstone = False\<rparr>"
proof -
  from substitutevars_lookup_table [of no_world "lax_source ''.env''" "[]" "[var_A_foo]" var_B_ref "[]" anyinterp]
  have "substitutevars no_world (lax_source ''.env'') [] ([var_A_foo] @ [var_B_ref]) anyinterp ! length [var_A_foo] =
     \<lparr>name = name var_B_ref,
      val = (if eligible (lax_source ''.env'') var_B_ref
             then ReplaceAllStringFunc anyinterp (val var_B_ref)
                    (subst_repl anyinterp
                       (overlay_vals (overlay_vals (environ_vals no_world) [])
                          (substitutevars no_world (lax_source ''.env'') [] [var_A_foo] anyinterp)))
             else val var_B_ref),
      allowsubs = eligible (lax_source ''.env'') var_B_ref, tombstone = tombstone var_B_ref\<rparr>"
    by (rule conjunct1)
  then show ?thesis unfolding same_batch_eval by simp
qed

text \<open>
  Claim C4 as stated fails: in the batch \<^verbatim>\<open>A=foo\<close>, \<^verbatim>\<open>B=${A}bar\<close> the value of \<^verbatim>\<open>B\<close>
  becomes \<^verbatim>\<open>foobar\<close>, and without the assignment of \<^verbatim>\<open>A\<close> in the batch it becomes
  \<^verbatim>\<open>bar\<close>.
\<close>

theorem same_batch_counterexample:
  "map val (substitutevars no_world (lax_source ''.env'') [] [var_A_foo, var_B_ref] anyinterp) = [''foo'', ''foobar''] \<and>
   map val (substitutevars no_world (lax_source ''.env'') [] [var_B_ref] anyinterp) = [''bar'']"
  by code_simp

section \<open>Single-quoted values and the substitution level\<close>

lemma lax_value_single_quoted:
  "lax_value (CHR 0x27 # s) = Inr (v, a, d) \<Longrightarrow> a = False"
  by (auto simp: lax_value_def trimRegexMatches_def laxqstart_def Let_def
      split: option.splits if_splits prod.splits)

lemma substitutevars_single:
  "substitutevars w src env [r] vm =
     [subst_one vm (overlay_vals (environ_vals w) env) (apply_level src r)]"
  by (simp only: substitutevars_foldl list.map subst_foldl_Cons foldl_Nil snd_conv)

lemma eligible_laxfile:
  "kind src = laxfile \<Longrightarrow> eligible src r = (if getsublevel src = maybesub then allowsubs r else getsublevel src = forcesub)"
  by (cases "getsublevel src") (simp_all add: eligible_def defaultsub_def)

lemma substitutevars_nth:
  "substitutevars w src env (pre @ r # post) vm ! length pre =
     subst_one vm (overlay_vals (overlay_vals (environ_vals w) env)
                     (substitutevars w src env pre vm)) (apply_level src r)"
proof -
  let ?S = "substitutevars w src env pre vm"
  let ?V = "overlay_vals (overlay_vals (environ_vals w) env) ?S"
  have "substitutevars w src env (pre @ r # post) vm =
          ?S @ subst_one vm ?V (apply_level src r) #
            snd (foldl (subst_step vm)
                   (?V(name (apply_level src r) \<mapsto> val (subst_one vm ?V (apply_level src r))), [])
                   (map (apply_level src) post))"
    by (simp only: substitutevars_append [of w src env pre] list.map subst_foldl_Cons)
  then have "substitutevars w src env (pre @ r # post) vm ! length ?S =
               subst_one vm ?V (apply_level src r)"
    by (simp only: nth_append_length)
  then show ?thesis by (simp only: substitutevars_length)
qed

text \<open>
  Claim C6, as amended. For every lax source and every batch, a single-quoted value comes
  out of the parser as not eligible for substitution, and wherever it stands in the batch
  it is left as it is when the level of the source is \<^verbatim>\<open>maybesub\<close> or \<^verbatim>\<open>neversub\<close>;
  when the level is \<^verbatim>\<open>forcesub\<close> it is interpolated, as every value of the batch then is,
  with the table that holds the OS environment, the earlier sources and the assignments
  before it in the batch.
\<close>

theorem single_quoted_policy:
  assumes "kind src = laxfile" and "lax_value (CHR 0x27 # s) = Inr (v, a, d)"
  shows "a = False \<and>
     substitutevars w src env
         (pre @ \<lparr>name = n, val = v, allowsubs = a, tombstone = False\<rparr> # post) vm ! length pre =
       \<lparr>name = n,
        val = (if getsublevel src = forcesub
               then ReplaceAllStringFunc vm v
                      (subst_repl vm
                         (overlay_vals (overlay_vals (environ_vals w) env)
                            (substitutevars w src env pre vm)))
               else v),
        allowsubs = (getsublevel src = forcesub), tombstone = False\<rparr> \<and>
     (getsublevel src = forcesub \<longrightarrow>
        substitutevars w src env (pre' @ r' # post') vm ! length pre' =
          \<lparr>name = name r',
           val = ReplaceAllStringFunc vm (val r')
                   (subst_repl vm
                      (overlay_vals (overlay_vals (environ_vals w) env)
                         (substitutevars w src env pre' vm))),
           allowsubs = True, tombstone = tombstone r'\<rparr>)"
proof (intro conjI impI)
  show a: "a = False" using assms(2) by (rule lax_value_single_quoted)
  have e: "eligible src \<lparr>name = n, val = v, allowsubs = False, tombstone = False\<rparr> =
             (getsublevel src = forcesub)"
    using assms(1) by (cases "getsublevel src") (simp_all add: eligible_laxfile)
  show "substitutevars w src env
         (pre @ \<lparr>name = n, val = v, allowsubs = a, tombstone = False\<rparr> # post) vm ! length pre =
       \<lparr>name = n,
        val = (if getsublevel src = forcesub
               then ReplaceAllStringFunc vm v
                      (subst_repl vm
                         (overlay_vals (overlay_vals (environ_vals w) env)
                            (substitutevars w src env pre vm)))
               else v),
        allowsubs = (getsublevel src = forcesub), tombstone = False\<rparr>"
    unfolding a substitutevars_nth
    by (simp add: subst_one_def apply_level_def e del: ReplaceAllStringFunc.simps)
next
  assume f: "getsublevel src = forcesub"
  have e: "eligible src r' = True"
    using assms(1) f by (simp add: eligible_laxfile)
  show "substitutevars w src env (pre' @ r' # post') vm ! length pre' =
          \<lparr>name = name r',
           val = ReplaceAllStringFunc vm (val r')
                   (subst_repl vm
                      (overlay_vals (overlay_vals (environ_vals w) env)
                         (substitutevars w src env pre' vm))),
           allowsubs = True, tombstone = tombstone r'\<rparr>"
    unfolding substitutevars_nth
    by (simp add: subst_one_def apply_level_def e del: ReplaceAllStringFunc.simps)
qed

lemma sq_value_eval: "lax_value (CHR 0x27 # ''${A}bar'' @ [CHR 0x27]) = Inr (''${A}bar'', False, [])"
  by code_simp

lemma sq_batch_eval:
  "substitutevars no_world (forced_lax_source ''.env'') [] [var_A_foo] anyinterp = [var_A_foo]"
  "substitutevars no_world (lax_source ''.env'') [] [var_A_foo] anyinterp = [var_A_foo]"
  "ReplaceAllStringFunc anyinterp ''${A}bar''
     (subst_repl anyinterp (overlay_vals (overlay_vals (environ_vals no_world) []) [var_A_foo])) = ''foobar''"
  by code_simp+

theorem single_quoted_policy_witness:
  "substitutevars no_world (forced_lax_source ''.env'') []
      [var_A_foo, \<lparr>name = ''B'', val = ''${A}bar'', allowsubs = False, tombstone = False\<rparr>] anyinterp ! 1 =
       \<lparr>name = ''B'', val = ''foobar'', allowsubs = True, tombstone = False\<rparr> \<and>
   substitutevars no_world (lax_source ''.env'') []
      [var_A_foo, \<lparr>name = ''B'', val = ''${A}bar'', allowsubs = False, tombstone = False\<rparr>] anyinterp ! 1 =
       \<lparr>name = ''B'', val = ''${A}bar'', allowsubs = False, tombstone = False\<rparr>"
proof -
  have k1: "kind (forced_lax_source ''.env'') = laxfile" by (simp add: forced_lax_source_def)
  have k2: "kind (lax_source ''.env'') = laxfile" by (simp add: lax_source_def)
  have l1: "getsublevel (forced_lax_source ''.env'') = forcesub"
    by (simp add: getsublevel_def forced_lax_source_def)
  have l2: "getsublevel (lax_source ''.env'') = maybesub"
    by (simp add: getsublevel_def lax_source_def defaultsub_def)
  from single_quoted_policy [OF k1 sq_value_eval,
         of no_world "[]" "[var_A_foo]" "''B''" "[]" anyinterp "[]" var_A_foo "[]"]
       single_quoted_policy [OF k2 sq_value_eval,
         of no_world "[]" "[var_A_foo]" "''B''" "[]" anyinterp "[]" var_A_foo "[]"]
  show ?thesis
    by (simp add: l1 l2 sq_batch_eval del: ReplaceAllStringFunc.simps)
qed

text \<open>
  Claim C6 as stated fails: with the level \<^verbatim>\<open>forcesub\<close> and \<^verbatim>\<open>A=foo\<close> in the
  environment, the lax file \<^verbatim>\<open>B='${A}bar'\<close> ends with \<^verbatim>\<open>B=foobar\<close>.
\<close>

theorem forced_single_quoted_counterexample:
  "main_core world_A_foo default_config [forced_lax_source ''.env''] [] =
     Completed [\<lparr>name = ''A'', val = ''foo'', allowsubs = False, tombstone = False\<rparr>,
                \<lparr>name = ''B'', val = ''foobar'', allowsubs = True, tombstone = False\<rparr>] [''sh''] []"
  by code_simp

section \<open>Sources that fail to parse\<close>

lemma process_sources_append:
  "process_sources w cfg pre vars cmd lg = LoopDone vars1 cmd lg1 \<Longrightarrow>
   process_sources w cfg (pre @ rest) vars cmd lg = process_sources w cfg rest vars1 cmd lg1"
proof (induction pre arbitrary: vars lg)
  case Nil
  then show ?case by simp
next
  case (Cons s pre)
  obtain plog res where p: "parse w cfg s = (plog, res)" by (cases "parse w cfg s") auto
  show ?case
  proof (cases res)
    case (Inr parsed)
    with p Cons.prems have
      "process_sources w cfg pre (vars @ substitutevars w s vars parsed (varmatch cfg)) cmd (lg @ plog)
         = LoopDone vars1 cmd lg1" by simp
    from Cons.IH [OF this] p Inr show ?thesis by simp
  next
    case (Inl err)
    show ?thesis
    proof (cases "explicit s")
      case True
      with p Inl Cons.prems show ?thesis by simp
    next
      case ne: False
      show ?thesis
      proof (cases "optional s")
        case False
        with p Inl ne Cons.prems have "map data (s # pre) @ cmd = cmd" by simp
        then have "length (map data (s # pre) @ cmd) = length cmd" by simp
        then show ?thesis by simp
      next
        case True
        with p Inl ne Cons.prems have
          "process_sources w cfg pre (vars @ substitutevars w s vars [] (varmatch cfg)) cmd
             (lg @ plog @ [ErrorParsing (data s) err]) = LoopDone vars1 cmd lg1" by simp
        from Cons.IH [OF this] p Inl ne True show ?thesis by simp
      qed
    qed
  qed
qed

text \<open>
  Claim C9. Let the sorted sources be \<open>pre @ src # post\<close>, let the loop have processed
  \<open>pre\<close> to its end with the assignments \<open>vars1\<close>, and let the parse of \<open>src\<close> fail.
  When \<open>src\<close> is neither explicit nor optional, the loop stops at once, \<open>src\<close> and the
  sources after it become the front of the command line, before the command split off by
  \<^verbatim>\<open>--\<close>, and the assignments \<open>vars1\<close> are kept. When \<open>src\<close> is explicit the run aborts
  with the error. When \<open>src\<close> is optional (and not explicit) the error is written to
  standard error and the loop goes on with the next source and the same assignments.
\<close>

theorem parse_failure_handling:
  assumes "prioritysort (if \<not> clearEnv cfg then osenv_source # sources else sources) = pre @ src # post"
    and "process_sources w cfg pre [] cmd [] = LoopDone vars1 cmd lg1"
    and "parse w cfg src = (plog, Inl err)"
  shows "(\<not> explicit src \<and> \<not> optional src \<longrightarrow>
            process_sources w cfg (pre @ src # post) [] cmd [] =
              LoopDone vars1 (map data (src # post) @ cmd) (lg1 @ plog) \<and>
            main_core w cfg sources cmd =
              Completed (setvars vars1) (map data (src # post) @ cmd) (lg1 @ plog)) \<and>
         (explicit src \<longrightarrow>
            process_sources w cfg (pre @ src # post) [] cmd [] =
              LoopFatal (lg1 @ plog @ [FailedToRead src err]) \<and>
            main_core w cfg sources cmd = Fatal (lg1 @ plog @ [FailedToRead src err])) \<and>
         (\<not> explicit src \<and> optional src \<longrightarrow>
            process_sources w cfg (pre @ src # post) [] cmd [] =
              process_sources w cfg post vars1 cmd (lg1 @ plog @ [ErrorParsing (data src) err]))"
proof -
  have loop: "process_sources w cfg (pre @ src # post) [] cmd [] =
                process_sources w cfg (src # post) vars1 cmd lg1"
    by (rule process_sources_append [OF assms(2)])
  have m: "main_core w cfg sources cmd =
      (case process_sources w cfg (pre @ src # post) [] cmd [] of
         LoopFatal lg \<Rightarrow> Fatal lg
       | LoopDone vars c lg \<Rightarrow> Completed (setvars vars) (if length c = 0 then [''sh''] else c) lg)"
    using assms(1) by (simp add: main_core_def Let_def)
  show ?thesis
    unfolding m loop using assms(3) by (simp add: substitutevars_Nil)
qed

lemma failure_sorted:
  "kind s1 = laxfile \<Longrightarrow>
   prioritysort (if \<not> clearEnv default_config then osenv_source # [raw_source ''A=1'', s1, lax_source ''-l'']
                 else [raw_source ''A=1'', s1, lax_source ''-l'']) =
     [raw_source ''A=1'', osenv_source] @ s1 # [lax_source ''-l'']"
  by (simp add: prioritysort_def bypriority_def sort_priorities_def enumerate_simps Less_def rank_def
        inittyperank_def default_config_def raw_source_def osenv_source_def lax_source_def)

lemma failure_pre:
  "process_sources no_world default_config [raw_source ''A=1'', osenv_source] [] [''x''] [] =
     LoopDone [var_A_1] [''x''] []"
  by code_simp

lemma failure_parse:
  "parse no_world default_config ((lax_source ''ls'')\<lparr>explicit := e, optional := opt\<rparr>) =
     ([], Inl (IOError ''no such file''))"
  by (simp add: parse_def lax_source_def parseLax_def no_world_def)

lemma failure_post:
  "process_sources no_world default_config [lax_source ''-l''] [var_A_1] [''x'']
     [ErrorParsing ''ls'' (IOError ''no such file'')] =
   LoopDone [var_A_1] [''-l'', ''x''] [ErrorParsing ''ls'' (IOError ''no such file'')]"
  by code_simp

lemma setvars_A_1: "setvars [var_A_1] = [var_A_1]"
  by code_simp

theorem parse_failure_handling_witness:
  "main_core no_world default_config
      [raw_source ''A=1'', (lax_source ''ls'')\<lparr>explicit := False, optional := False\<rparr>, lax_source ''-l''] [''x''] =
     Completed [var_A_1] [''ls'', ''-l'', ''x''] [] \<and>
   main_core no_world default_config
      [raw_source ''A=1'', (lax_source ''ls'')\<lparr>explicit := True, optional := False\<rparr>, lax_source ''-l''] [''x''] =
     Fatal [FailedToRead ((lax_source ''ls'')\<lparr>explicit := True, optional := False\<rparr>) (IOError ''no such file'')] \<and>
   process_sources no_world default_config
      ([raw_source ''A=1'', osenv_source] @ (lax_source ''ls'')\<lparr>explicit := False, optional := True\<rparr> # [lax_source ''-l''])
      [] [''x''] [] =
     LoopDone [var_A_1] [''-l'', ''x''] [ErrorParsing ''ls'' (IOError ''no such file'')]"
proof -
  have k: "kind ((lax_source ''ls'')\<lparr>explicit := e, optional := opt\<rparr>) = laxfile" for e opt
    by (simp add: lax_source_def)
  have d: "data ((lax_source ''ls'')\<lparr>explicit := e, optional := opt\<rparr>) = ''ls''" for e opt
    by (simp add: lax_source_def)
  have d': "data (lax_source ''-l'') = ''-l''" by (simp add: lax_source_def)
  from parse_failure_handling [OF failure_sorted [OF k] failure_pre failure_parse, of False False]
       parse_failure_handling [OF failure_sorted [OF k] failure_pre failure_parse, of True False]
       parse_failure_handling [OF failure_sorted [OF k] failure_pre failure_parse, of False True]
  show ?thesis
    by (simp add: d d' setvars_A_1 failure_post del: process_sources.simps)
qed

section \<open>Priority and tombstones in the final mapping\<close>

lemma uniq_step_no_tombstone_prefix:
  "\<not> tombstone v \<Longrightarrow> \<exists>ys. u_vars (uniq_step st v) = u_vars st @ ys"
  by (simp add: uniq_step_def split: option.splits)

lemma uniq_foldl_no_tombstone_prefix:
  "list_all (\<lambda>v. \<not> tombstone v) xs \<Longrightarrow> \<exists>ys. u_vars (foldl uniq_step st xs) = u_vars st @ ys"
proof (induction xs arbitrary: st)
  case Nil
  then show ?case by simp
next
  case (Cons x xs)
  then have "\<not> tombstone x" and rest: "list_all (\<lambda>v. \<not> tombstone v) xs" by simp_all
  then obtain ys where a: "u_vars (uniq_step st x) = u_vars st @ ys"
    using uniq_step_no_tombstone_prefix by blast
  from Cons.IH [OF rest, of "uniq_step st x"] obtain zs where
    "u_vars (foldl uniq_step (uniq_step st x) xs) = u_vars (uniq_step st x) @ zs" by blast
  with a show ?case by simp
qed

lemma setvars_first_wins:
  assumes "\<not> tombstone a" and "list_all (\<lambda>v. \<not> tombstone v) rest"
  shows "map_of (map (\<lambda>v. (name v, val v)) (setvars (a # rest))) (name a) = Some (val a)"
proof -
  have s: "uniq_step uniq_init a =
      \<lparr>u_vars = [a], u_varnames = [name a], u_varindex = [name a \<mapsto> 0]\<rparr>"
    by (simp add: uniq_step_def uniq_init_def)
  from uniq_foldl_no_tombstone_prefix [OF assms(2), of "uniq_step uniq_init a"]
  obtain ys where "u_vars (foldl uniq_step (uniq_step uniq_init a) rest) = a # ys"
    by (auto simp: s)
  then have "snd (uniqVarsByName (a # rest)) = a # ys"
    by (simp add: uniqVarsByName_def Let_def)
  with assms(1) show ?thesis by (simp add: setvars_def)
qed

lemma setvars_first_unique:
  assumes "\<not> tombstone a" and "list_all (\<lambda>v. \<not> tombstone v) rest"
  shows "filter (\<lambda>v. name v = name a) (setvars (a # rest)) = [a]"
proof -
  have s: "uniq_step uniq_init a =
      \<lparr>u_vars = [a], u_varnames = [name a], u_varindex = [name a \<mapsto> 0]\<rparr>"
    by (simp add: uniq_step_def uniq_init_def)
  from uniq_foldl_no_tombstone_prefix [OF assms(2), of "uniq_step uniq_init a"]
  obtain ys where "u_vars (foldl uniq_step (uniq_step uniq_init a) rest) = a # ys"
    by (auto simp: s)
  then have u: "snd (uniqVarsByName (a # rest)) = a # ys"
    by (simp add: uniqVarsByName_def Let_def)
  from uniq_vars_distinct [of "a # rest"] u have "name a \<notin> name ` set ys" by simp
  then have "\<forall>x \<in> set ys. name x \<noteq> name a" by (metis imageI)
  then have "filter (\<lambda>v. name v = name a) (filter (\<lambda>v. \<not> tombstone v) ys) = []"
    by (simp add: filter_empty_conv)
  with assms(1) u show ?thesis by (simp add: setvars_def)
qed

lemma has_tombstone_step_new:
  assumes "uniq_inv st" and "tombstone t"
  shows "has_tombstone (name t) (uniq_step st t)"
proof (cases "u_varindex st (name t)")
  case None
  with assms(2) show ?thesis by (simp add: uniq_step_def has_tombstone_def)
next
  case (Some i)
  with assms(1) have "i < length (u_vars st)" by (auto simp: uniq_inv_def)
  with Some assms(2) show ?thesis by (simp add: uniq_step_def has_tombstone_def)
qed

lemma has_tombstone_step_keep:
  assumes inv: "uniq_inv st" and h: "has_tombstone n st"
  shows "has_tombstone n (uniq_step st v)"
proof -
  from h obtain i where i: "u_varindex st n = Some i" "tombstone (u_vars st ! i)"
    by (auto simp: has_tombstone_def split: option.splits)
  from inv i(1) have il: "i < length (u_vars st)" and ni: "name (u_vars st ! i) = n"
    by (auto simp: uniq_inv_def)
  show ?thesis
  proof (cases "u_varindex st (name v)")
    case None
    with i have "name v \<noteq> n" by auto
    with None i il show ?thesis
      by (simp add: uniq_step_def has_tombstone_def nth_append)
  next
    case (Some j)
    from inv Some have jl: "j < length (u_vars st)" and nj: "name (u_vars st ! j) = name v"
      by (auto simp: uniq_inv_def)
    show ?thesis
    proof (cases "tombstone v")
      case False
      with Some h show ?thesis by (simp add: uniq_step_def)
    next
      case True
      show ?thesis
      proof (cases "j = i")
        case True
        with \<open>tombstone v\<close> Some i il show ?thesis
          by (simp add: uniq_step_def has_tombstone_def)
      next
        case False
        with \<open>tombstone v\<close> Some i il show ?thesis
          by (simp add: uniq_step_def has_tombstone_def)
      qed
    qed
  qed
qed

lemma has_tombstone_foldl:
  "uniq_inv st \<Longrightarrow> has_tombstone n st \<Longrightarrow> has_tombstone n (foldl uniq_step st xs)"
proof (induction xs arbitrary: st)
  case Nil
  then show ?case by simp
next
  case (Cons x xs)
  from Cons.prems have "uniq_inv (uniq_step st x)" "has_tombstone n (uniq_step st x)"
    by (simp_all add: uniq_inv_step has_tombstone_step_keep)
  from Cons.IH [OF this] show ?case by simp
qed

lemma has_tombstone_absent:
  assumes inv: "uniq_inv st" and h: "has_tombstone n st"
  shows "n \<notin> name ` set (filter (\<lambda>v. \<not> tombstone v) (u_vars st))"
proof
  assume "n \<in> name ` set (filter (\<lambda>v. \<not> tombstone v) (u_vars st))"
  then obtain v where v: "v \<in> set (u_vars st)" "\<not> tombstone v" "name v = n" by auto
  then obtain j where j: "j < length (u_vars st)" "u_vars st ! j = v"
    by (auto simp: in_set_conv_nth)
  from h obtain i where i: "u_varindex st n = Some i" "tombstone (u_vars st ! i)"
    by (auto simp: has_tombstone_def split: option.splits)
  from inv i(1) have il: "i < length (u_vars st)" and ni: "name (u_vars st ! i) = n"
    by (auto simp: uniq_inv_def)
  from inv have d: "distinct (map name (u_vars st))" by (simp add: uniq_inv_def)
  have "map name (u_vars st) ! i = map name (u_vars st) ! j"
    using il j v ni by simp
  moreover have "i < length (map name (u_vars st))" "j < length (map name (u_vars st))"
    using il j by simp_all
  ultimately have "i = j" using d nth_eq_iff_index_eq by blast
  with i(2) j(2) v(2) show False by simp
qed

lemma setvars_tombstone_deletes:
  assumes "t \<in> set allvars" and "tombstone t"
  shows "name t \<notin> name ` set (setvars allvars)"
proof -
  from assms(1) obtain pre post where sp: "allvars = pre @ t # post"
    by (auto simp: in_set_conv_decomp)
  let ?st = "foldl uniq_step uniq_init pre"
  have inv: "uniq_inv ?st" by (rule uniq_inv_foldl [OF uniq_inv_init])
  have "has_tombstone (name t) (uniq_step ?st t)"
    by (rule has_tombstone_step_new [OF inv assms(2)])
  moreover have "uniq_inv (uniq_step ?st t)" by (rule uniq_inv_step [OF inv])
  ultimately have h: "has_tombstone (name t) (foldl uniq_step (uniq_step ?st t) post)"
    by (rule has_tombstone_foldl [rotated])
  have e: "foldl uniq_step uniq_init allvars = foldl uniq_step (uniq_step ?st t) post"
    by (simp add: sp)
  have inv': "uniq_inv (foldl uniq_step uniq_init allvars)"
    by (rule uniq_inv_foldl [OF uniq_inv_init])
  from has_tombstone_absent [OF inv'] h e show ?thesis
    by (simp add: setvars_def uniqVarsByName_def Let_def)
qed

lemma subst_foldl_tombstones:
  "map tombstone (snd (foldl (subst_step vm) (vals, []) rs)) = map tombstone rs"
proof (induction rs arbitrary: vals)
  case Nil
  show ?case by simp
next
  case (Cons r rs)
  show ?case
    by (simp only: subst_foldl_Cons list.map Cons.IH) (simp add: subst_one_def)
qed

lemma substitutevars_tombstones:
  "map tombstone (substitutevars w src env rs vm) = map tombstone rs"
  by (simp add: substitutevars_foldl subst_foldl_tombstones apply_level_def comp_def)

lemma substitutevars_no_tombstone:
  "list_all (\<lambda>v. \<not> tombstone v) rs \<Longrightarrow>
   list_all (\<lambda>v. \<not> tombstone v) (substitutevars w src env rs vm)"
proof -
  assume a: "list_all (\<lambda>v. \<not> tombstone v) rs"
  have "set (map tombstone (substitutevars w src env rs vm)) = set (map tombstone rs)"
    by (simp only: substitutevars_tombstones)
  then have i: "tombstone ` set (substitutevars w src env rs vm) = tombstone ` set rs" by simp
  show ?thesis
    unfolding list_all_iff
  proof
    fix v assume "v \<in> set (substitutevars w src env rs vm)"
    then have "tombstone v \<in> tombstone ` set rs" using i by blast
    then obtain r where "r \<in> set rs" "tombstone v = tombstone r" by blast
    with a show "\<not> tombstone v" by (simp add: list_all_iff)
  qed
qed

lemma parsevar_no_tombstone: "\<not> tombstone (parsevar s)"
  by (simp add: parsevar_def)

lemma parseFile_no_tombstone:
  "parseFile w cfg src = Inr batch \<Longrightarrow> list_all (\<lambda>v. \<not> tombstone v) batch"
proof -
  have f: "list_all (\<lambda>v. \<not> tombstone v) vars \<Longrightarrow>
           list_all (\<lambda>v. \<not> tombstone v) (foldl (parseFile_line cfg) vars ls)" for vars ls
    by (induction ls arbitrary: vars) (simp_all add: parseFile_line_def parsevar_no_tombstone)
  assume "parseFile w cfg src = Inr batch"
  then show ?thesis
    using f [of "[]"] by (auto simp: parseFile_def split: sum.splits)
qed

lemma shell_tokens_no_tombstone:
  "list_all (\<lambda>v. \<not> tombstone v) vars \<Longrightarrow> list_all (\<lambda>v. \<not> tombstone v) (shell_tokens vars tokens)"
  by (simp add: shell_tokens_def Let_def parsevar_no_tombstone)

lemma parseShell_loop_no_tombstone:
  "list_all (\<lambda>v. \<not> tombstone v) vars \<Longrightarrow> list_all (\<lambda>v. \<not> tombstone v) (parseShell_loop w ls vars)"
proof (induction w ls vars rule: parseShell_loop.induct)
  case (1 w vars)
  then show ?case by simp
next
  case (2 w line rest vars)
  show ?case
  proof (cases "comment_match line")
    case True
    with 2 show ?thesis by simp
  next
    case False
    show ?thesis
    proof (cases "fst (shell_retry w line rest)")
      case (Inl err)
      with False 2 show ?thesis by simp
    next
      case (Inr tokens)
      with False 2 show ?thesis by (simp add: shell_tokens_no_tombstone)
    qed
  qed
qed

lemma parseShell_no_tombstone:
  "parseShell w src = Inr batch \<Longrightarrow> list_all (\<lambda>v. \<not> tombstone v) batch"
  using parseShell_loop_no_tombstone [of "[]"]
  by (auto simp: parseShell_def split: sum.splits)

lemma lax_after_id_no_tombstone: "lax_after_id line nm s = LaxVar v d \<Longrightarrow> \<not> tombstone v"
  by (auto simp: lax_after_id_def split: prod.splits if_splits sum.splits)

lemma lax_iter_no_tombstone: "lax_iter s = LaxVar v d \<Longrightarrow> \<not> tombstone v"
  by (auto simp: lax_iter_def Let_def split: prod.splits if_splits dest: lax_after_id_no_tombstone)

lemma parseLax_loop_no_tombstone:
  "list_all (\<lambda>v. \<not> tombstone v) vars \<Longrightarrow> parseLax_loop wn s vars lg = (lg', Inr batch) \<Longrightarrow>
   list_all (\<lambda>v. \<not> tombstone v) batch"
proof (induction wn s vars lg rule: parseLax_loop.induct)
  case (1 wn s vars lg)
  show ?case
  proof (cases "s = []")
    case True
    with "1.prems" show ?thesis by (simp add: parseLax_loop.simps [of wn "[]"])
  next
    case False
    show ?thesis
    proof (cases "lax_iter s")
      case (LaxSkip d)
      with False "1.prems" "1.IH"(1) show ?thesis
        by (simp add: parseLax_loop.simps [of wn s])
    next
      case (LaxInvalid line d)
      with False "1.prems" "1.IH"(2) show ?thesis
        by (simp add: parseLax_loop.simps [of wn s])
    next
      case (LaxVar v d)
      with False "1.prems" "1.IH"(3) lax_iter_no_tombstone [of s v d] show ?thesis
        by (simp add: parseLax_loop.simps [of wn s])
    next
      case (LaxError e)
      with False "1.prems" show ?thesis by (simp add: parseLax_loop.simps [of wn s])
    qed
  qed
qed

lemma parseFromPid_no_tombstone:
  "parseFromPid w cfg src = Inr batch \<Longrightarrow> list_all (\<lambda>v. \<not> tombstone v) batch"
  by (auto simp: parseFromPid_def readenv_def Let_def list_all_iff parsevar_no_tombstone
      split: if_splits option.splits sum.splits)

lemma parse_no_tombstone:
  assumes "kind src \<noteq> jsonmap" and "parse w cfg src = (lg, Inr batch)"
  shows "list_all (\<lambda>v. \<not> tombstone v) batch"
proof (cases "kind src")
  case laxfile
  with assms(2) show ?thesis
    using parseLax_loop_no_tombstone [of "[]" "warn cfg" _ "[]" lg batch]
    by (auto simp: parse_def parseLax_def split: sum.splits)
next
  case jsonmap
  with assms(1) show ?thesis by simp
qed (use assms(2) in \<open>auto simp: parse_def parseOsEnviron_def list_all_iff parsevar_no_tombstone
       dest: parseFile_no_tombstone parseShell_no_tombstone parseFromPid_no_tombstone\<close>)

lemma process_sources_result:
  "(\<exists>lg'. process_sources w cfg srcs vars cmd lg = LoopFatal lg' \<and>
          (\<exists>s \<in> set srcs. explicit s \<and> isl (snd (parse w cfg s)))) \<or>
   (\<exists>ext c' lg'. process_sources w cfg srcs vars cmd lg = LoopDone (vars @ ext) c' lg' \<and>
          ((\<forall>s \<in> set srcs. kind s \<noteq> jsonmap) \<longrightarrow> list_all (\<lambda>v. \<not> tombstone v) ext))"
proof (induction srcs arbitrary: vars lg)
  case Nil
  show ?case by simp
next
  case (Cons s srcs)
  obtain plog res where p: "parse w cfg s = (plog, res)" by (cases "parse w cfg s") auto
  show ?case
  proof (cases res)
    case (Inl err)
    show ?thesis
    proof (cases "explicit s")
      case True
      with p Inl show ?thesis by simp
    next
      case ne: False
      show ?thesis
      proof (cases "optional s")
        case False
        with p Inl ne show ?thesis by simp
      next
        case True
        from Cons.IH [of vars "lg @ plog @ [ErrorParsing (data s) err]"]
        show ?thesis
          using p Inl ne True by (auto simp: substitutevars_Nil)
      qed
    qed
  next
    case (Inr parsed)
    let ?b = "substitutevars w s vars parsed (varmatch cfg)"
    have nt: "kind s \<noteq> jsonmap \<Longrightarrow> list_all (\<lambda>v. \<not> tombstone v) ?b"
      using parse_no_tombstone [of s w cfg plog parsed] p Inr
      by (simp add: substitutevars_no_tombstone)
    from Cons.IH [of "vars @ ?b" "lg @ plog"]
    show ?thesis
    proof
      assume "\<exists>lg'. process_sources w cfg srcs (vars @ ?b) cmd (lg @ plog) = LoopFatal lg' \<and>
                (\<exists>s \<in> set srcs. explicit s \<and> isl (snd (parse w cfg s)))"
      with p Inr show ?thesis by auto
    next
      assume "\<exists>ext c' lg'. process_sources w cfg srcs (vars @ ?b) cmd (lg @ plog) =
                  LoopDone ((vars @ ?b) @ ext) c' lg' \<and>
                ((\<forall>s \<in> set srcs. kind s \<noteq> jsonmap) \<longrightarrow> list_all (\<lambda>v. \<not> tombstone v) ext)"
      then obtain ext c' lg' where
        e: "process_sources w cfg srcs (vars @ ?b) cmd (lg @ plog) = LoopDone ((vars @ ?b) @ ext) c' lg'"
        and t: "(\<forall>s \<in> set srcs. kind s \<noteq> jsonmap) \<longrightarrow> list_all (\<lambda>v. \<not> tombstone v) ext"
        by blast
      have "process_sources w cfg (s # srcs) vars cmd lg = LoopDone (vars @ (?b @ ext)) c' lg'"
        using p Inr e by simp
      moreover have "(\<forall>x \<in> set (s # srcs). kind x \<noteq> jsonmap) \<longrightarrow>
                       list_all (\<lambda>v. \<not> tombstone v) (?b @ ext)"
        using nt t by simp
      ultimately show ?thesis by blast
    qed
  qed
qed

lemma rank_simps:
  "rank raw = 0" "rank jsonmap = 1" "rank osenv = 2"
  "rank file_kind = 3" "rank shell = 3" "rank laxfile = 3" "rank pid = 4" "rank notype = 4"
  by (simp_all add: rank_def inittyperank_def enumerate_simps)

lemma prioritysort_two:
  "rank (kind a) < rank (kind b) \<Longrightarrow>
   prioritysort [a, b] = [a, b] \<and> prioritysort [b, a] = [a, b]"
  by (simp add: prioritysort_def bypriority_def sort_priorities_def Less_def enumerate_simps)

lemma prioritysort_three:
  "rank (kind a) < rank (kind m) \<Longrightarrow> rank (kind m) < rank (kind b) \<Longrightarrow>
   prioritysort [m, a, b] = [a, m, b] \<and> prioritysort [m, b, a] = [a, m, b]"
  by (simp add: prioritysort_def bypriority_def sort_priorities_def Less_def enumerate_simps)

lemma replace_1: "ReplaceAllStringFunc vm ''1'' f = ''1''"
  by (simp add: varmatch_at_def)

lemma raw_A_1:
  assumes "kind r = raw" and "data r = ''A=1''"
  shows "parse w cfg r = ([], Inr [parsevar ''A=1''])"
    and "substitutevars w r env [parsevar ''A=1''] vm =
           [\<lparr>name = ''A'', val = ''1'', allowsubs = eligible r (parsevar ''A=1''), tombstone = False\<rparr>]"
proof -
  show "parse w cfg r = ([], Inr [parsevar ''A=1''])"
    using assms by (simp add: parse_def)
  have pv: "parsevar ''A=1'' = \<lparr>name = ''A'', val = ''1'', allowsubs = False, tombstone = False\<rparr>"
    by (simp add: parsevar_def)
  show "substitutevars w r env [parsevar ''A=1''] vm =
           [\<lparr>name = ''A'', val = ''1'', allowsubs = eligible r (parsevar ''A=1''), tombstone = False\<rparr>]"
    by (simp add: substitutevars_single subst_one_def apply_level_def pv replace_1
          del: ReplaceAllStringFunc.simps)
qed

lemma main_core_after_first:
  assumes sorted: "prioritysort (if \<not> clearEnv cfg then osenv_source # sources else sources) = s # rest"
    and first: "parse w cfg s = ([], Inr parsed)"
    and sub: "substitutevars w s [] parsed (varmatch cfg) = [x]"
    and nofatal: "\<forall>t \<in> set rest. \<not> (explicit t \<and> isl (snd (parse w cfg t)))"
  shows "\<exists>ext c lg. main_core w cfg sources cmd = Completed (setvars (x # ext)) c lg \<and>
           ((\<forall>t \<in> set rest. kind t \<noteq> jsonmap) \<longrightarrow> list_all (\<lambda>v. \<not> tombstone v) ext)"
proof -
  have step: "process_sources w cfg (s # rest) [] cmd [] = process_sources w cfg rest [x] cmd []"
    using first sub by simp
  from process_sources_result [of w cfg rest "[x]" cmd "[]"] nofatal
  obtain ext c' lg' where
    e: "process_sources w cfg rest [x] cmd [] = LoopDone ([x] @ ext) c' lg'"
    and t: "(\<forall>t \<in> set rest. kind t \<noteq> jsonmap) \<longrightarrow> list_all (\<lambda>v. \<not> tombstone v) ext"
    by blast
  have "main_core w cfg sources cmd =
          Completed (setvars (x # ext)) (if length c' = 0 then [''sh''] else c') lg'"
    using sorted step e by (simp add: main_core_def Let_def del: process_sources.simps)
  with t show ?thesis by blast
qed

text \<open>
  Claim C2. For the sources consisting of the raw assignment \<^verbatim>\<open>A=1\<close> and one file source
  (of kind file, shell or lax), given in either order, with or without the OS environment
  prepended, and whatever the file holds (a file that defines \<^verbatim>\<open>A=2\<close> in particular):
  the raw source is sorted to the front, its assignment is the first one seen for \<^verbatim>\<open>A\<close>,
  every later assignment of \<^verbatim>\<open>A\<close> is discarded, and the final mapping has exactly one
  assignment of \<^verbatim>\<open>A\<close>, the one of the raw source with the value \<^verbatim>\<open>1\<close>. The one run
  without a final mapping, an explicit file that cannot be parsed, is excluded.
\<close>

theorem raw_beats_file:
  assumes "kind r = raw" and "data r = ''A=1''"
    and "kind f = file_kind \<or> kind f = shell \<or> kind f = laxfile"
    and "sources = [r, f] \<or> sources = [f, r]"
    and "\<not> (explicit f \<and> isl (snd (parse w cfg f)))"
  shows "\<exists>fv c lg. main_core w cfg sources cmd = Completed fv c lg \<and>
           filter (\<lambda>v. name v = ''A'') fv =
             [\<lparr>name = ''A'', val = ''1'', allowsubs = eligible r (parsevar ''A=1''),
               tombstone = False\<rparr>] \<and>
           map_of (map (\<lambda>v. (name v, val v)) fv) ''A'' = Some ''1''"
proof -
  have rf: "rank (kind r) < rank (kind f)" using assms(1,3) by (auto simp: rank_simps)
  have ro: "rank (kind r) < rank (kind osenv_source)"
    using assms(1) by (simp add: rank_simps osenv_source_def)
  have orf: "rank (kind osenv_source) < rank (kind f)"
    using assms(3) by (auto simp: rank_simps osenv_source_def)
  define rest where "rest = (if \<not> clearEnv cfg then [osenv_source, f] else [f])"
  have sorted: "prioritysort (if \<not> clearEnv cfg then osenv_source # sources else sources) = r # rest"
    using assms(4) prioritysort_two [OF rf] prioritysort_three [OF ro orf]
    by (auto simp: rest_def)
  have nofatal: "\<forall>t \<in> set rest. \<not> (explicit t \<and> isl (snd (parse w cfg t)))"
    using assms(5) by (simp add: rest_def osenv_source_def)
  have nojson: "\<forall>t \<in> set rest. kind t \<noteq> jsonmap"
    using assms(3) by (auto simp: rest_def osenv_source_def)
  let ?x = "\<lparr>name = ''A'', val = ''1'', allowsubs = eligible r (parsevar ''A=1''), tombstone = False\<rparr>"
  from main_core_after_first [OF sorted raw_A_1(1) [OF assms(1,2)] raw_A_1(2) [OF assms(1,2)] nofatal,
         of cmd] nojson
  obtain ext c lg where m: "main_core w cfg sources cmd = Completed (setvars (?x # ext)) c lg"
    and t: "list_all (\<lambda>v. \<not> tombstone v) ext" by blast
  have "map_of (map (\<lambda>v. (name v, val v)) (setvars (?x # ext))) (name ?x) = Some (val ?x)"
    by (rule setvars_first_wins) (simp_all add: t)
  moreover have "filter (\<lambda>v. name v = name ?x) (setvars (?x # ext)) = [?x]"
    by (rule setvars_first_unique) (simp_all add: t)
  ultimately show ?thesis using m by simp
qed

lemma json_A_null:
  assumes "kind j = jsonmap" and "jsonObject w (data j) = Inr [(''A'', JNull)]"
  shows "parse w cfg j = ([], Inr [\<lparr>name = ''A'', val = [], allowsubs = False, tombstone = True\<rparr>])"
    and "\<exists>x. substitutevars w j env [\<lparr>name = ''A'', val = [], allowsubs = False, tombstone = True\<rparr>] vm = [x]
              \<and> name x = ''A'' \<and> tombstone x"
  using assms
  by (simp_all add: parse_def parseJsonMap_def json_entry_def substitutevars_single subst_one_def
       apply_level_def del: ReplaceAllStringFunc.simps)

text \<open>
  Claim C3. For the sources consisting of a JSON source that reads as \<^verbatim>\<open>{"A": null}\<close> and
  one file source, given in either order, with or without the OS environment prepended and
  whatever the file and the environment define for \<^verbatim>\<open>A\<close>: the JSON source is processed
  first, its tombstone wins the merge and is stripped, and \<^verbatim>\<open>A\<close> is absent from the final
  mapping.
\<close>

theorem json_null_deletes:
  assumes "kind j = jsonmap" and "jsonObject w (data j) = Inr [(''A'', JNull)]"
    and "kind f = file_kind \<or> kind f = shell \<or> kind f = laxfile"
    and "sources = [j, f] \<or> sources = [f, j]"
    and "\<not> (explicit f \<and> isl (snd (parse w cfg f)))"
  shows "\<exists>fv c lg. main_core w cfg sources cmd = Completed fv c lg \<and> ''A'' \<notin> name ` set fv"
proof -
  have jf: "rank (kind j) < rank (kind f)" using assms(1,3) by (auto simp: rank_simps)
  have jo: "rank (kind j) < rank (kind osenv_source)"
    using assms(1) by (simp add: rank_simps osenv_source_def)
  have ojf: "rank (kind osenv_source) < rank (kind f)"
    using assms(3) by (auto simp: rank_simps osenv_source_def)
  define rest where "rest = (if \<not> clearEnv cfg then [osenv_source, f] else [f])"
  have sorted: "prioritysort (if \<not> clearEnv cfg then osenv_source # sources else sources) = j # rest"
    using assms(4) prioritysort_two [OF jf] prioritysort_three [OF jo ojf]
    by (auto simp: rest_def)
  have nofatal: "\<forall>t \<in> set rest. \<not> (explicit t \<and> isl (snd (parse w cfg t)))"
    using assms(5) by (simp add: rest_def osenv_source_def)
  from json_A_null(2) [OF assms(1,2), of "[]" "varmatch cfg"]
  obtain x where x: "substitutevars w j []
        [\<lparr>name = ''A'', val = [], allowsubs = False, tombstone = True\<rparr>] (varmatch cfg) = [x]"
    and nx: "name x = ''A''" and tx: "tombstone x" by blast
  from main_core_after_first [OF sorted json_A_null(1) [OF assms(1,2)] x nofatal, of cmd]
  obtain ext c lg where m: "main_core w cfg sources cmd = Completed (setvars (x # ext)) c lg"
    by blast
  have "name x \<notin> name ` set (setvars (x # ext))"
    by (rule setvars_tombstone_deletes [OF _ tx]) simp
  with m nx show ?thesis by simp
qed

lemma file_A_2_parse:
  "parse world_file_A_2 default_config (lax_source ''f.env'') =
     ([], Inr [\<lparr>name = ''A'', val = ''2'', allowsubs = True, tombstone = False\<rparr>])"
  by code_simp

lemma file_A_x_parse:
  "parse world_file_A_x default_config (lax_source ''f.env'') =
     ([], Inr [\<lparr>name = ''A'', val = ''x'', allowsubs = True, tombstone = False\<rparr>])"
  by code_simp

lemma file_A_2_stream:
  "process_sources world_file_A_2 default_config
     (prioritysort [osenv_source, lax_source ''f.env'', raw_source ''A=1'']) [] [] [] =
   LoopDone [var_A_1,
             \<lparr>name = ''A'', val = ''0'', allowsubs = False, tombstone = False\<rparr>,
             \<lparr>name = ''A'', val = ''2'', allowsubs = True, tombstone = False\<rparr>] [] []"
  by code_simp

theorem raw_beats_file_witness:
  "(\<exists>fv c lg. main_core world_file_A_2 default_config [lax_source ''f.env'', raw_source ''A=1''] [] =
        Completed fv c lg \<and>
      filter (\<lambda>v. name v = ''A'') fv = [var_A_1] \<and>
      map_of (map (\<lambda>v. (name v, val v)) fv) ''A'' = Some ''1'') \<and>
   parse world_file_A_2 default_config (lax_source ''f.env'') =
     ([], Inr [\<lparr>name = ''A'', val = ''2'', allowsubs = True, tombstone = False\<rparr>])"
proof -
  have a: "kind (raw_source ''A=1'') = raw" "data (raw_source ''A=1'') = ''A=1''"
    by (simp_all add: raw_source_def)
  have b: "kind (lax_source ''f.env'') = file_kind \<or> kind (lax_source ''f.env'') = shell \<or>
           kind (lax_source ''f.env'') = laxfile"
    by (simp add: lax_source_def)
  have c: "[lax_source ''f.env'', raw_source ''A=1''] = [raw_source ''A=1'', lax_source ''f.env''] \<or>
           [lax_source ''f.env'', raw_source ''A=1''] = [lax_source ''f.env'', raw_source ''A=1'']"
    by simp
  have d: "\<not> (explicit (lax_source ''f.env'') \<and>
               isl (snd (parse world_file_A_2 default_config (lax_source ''f.env''))))"
    by (simp add: lax_source_def)
  have e: "\<lparr>name = ''A'', val = ''1'', allowsubs = eligible (raw_source ''A=1'') (parsevar ''A=1''),
             tombstone = False\<rparr> = var_A_1"
    by (simp add: eligible_def getsublevel_def raw_source_def defaultsub_def parsevar_def var_A_1_def)
  from raw_beats_file [OF a b c d, of "[]"] file_A_2_parse show ?thesis
    unfolding e by simp
qed

theorem json_null_deletes_witness:
  "(\<exists>fv c lg. main_core world_file_A_x default_config [lax_source ''f.env'', json_null_source] [] =
        Completed fv c lg \<and> ''A'' \<notin> name ` set fv) \<and>
   parse world_file_A_x default_config (lax_source ''f.env'') =
     ([], Inr [\<lparr>name = ''A'', val = ''x'', allowsubs = True, tombstone = False\<rparr>])"
proof -
  have a: "kind json_null_source = jsonmap" by (simp add: json_null_source_def)
  have a': "jsonObject world_file_A_x (data json_null_source) = Inr [(''A'', JNull)]"
    by (simp add: world_file_A_x_def)
  have b: "kind (lax_source ''f.env'') = file_kind \<or> kind (lax_source ''f.env'') = shell \<or>
           kind (lax_source ''f.env'') = laxfile"
    by (simp add: lax_source_def)
  have c: "[lax_source ''f.env'', json_null_source] = [json_null_source, lax_source ''f.env''] \<or>
           [lax_source ''f.env'', json_null_source] = [lax_source ''f.env'', json_null_source]"
    by simp
  have d: "\<not> (explicit (lax_source ''f.env'') \<and>
               isl (snd (parse world_file_A_x default_config (lax_source ''f.env''))))"
    by (simp add: lax_source_def)
  from json_null_deletes [OF a a' b c d, of "[]"] file_A_x_parse show ?thesis by simp
qed

lemma raw_beats_file_run:
  "main_core world_file_A_2 default_config [lax_source ''f.env'', raw_source ''A=1''] [] =
     Completed [var_A_1] [''sh''] []"
  by code_simp

lemma json_null_deletes_run:
  "main_core world_file_A_x default_config [lax_source ''f.env'', json_null_source] [] =
     Completed [] [''sh''] []"
  by code_simp

section \<open>Errors and invalid lines of the lax parser\<close>







































section \<open>The interpolation example\<close>

lemma dq_loop: "parseLax_loop wn double_quoted_file [] [] = ([], Inr [var_A_foo, var_B_ref])"
  by code_simp

lemma sq_loop: "parseLax_loop wn two_line_single_quoted_file [] [] = ([], Inr [var_A_foo, var_B_literal])"
  by code_simp

lemma replace_foo: "ReplaceAllStringFunc vm ''foo'' f = ''foo''"
  by (simp add: varmatch_at_def)

lemma replace_ref:
  "ReplaceAllStringFunc vm ''${A}bar'' (subst_repl vm vals) =
     (case vals ''A'' of Some v \<Rightarrow> v | None \<Rightarrow> []) @ ''bar''"
  by (cases vm)
     (simp_all add: varmatch_at_def interp_brace_def interp_simple_def notclose_def interpchar_def
        re_word_def subst_repl_def Let_def)

lemma apply_level_default: "sublevel src = None \<Longrightarrow> apply_level src r = r"
  by (simp add: apply_level_def eligible_def getsublevel_def)

lemma subst_dq:
  "substitutevars w (lax_source p) env [var_A_foo, var_B_ref] vm = [var_A_foo, var_B_foobar]"
proof -
  have n: "sublevel (lax_source p) = None" by (simp add: lax_source_def)
  have a: "subst_one vm vals var_A_foo = var_A_foo" for vals
    by (simp add: subst_one_def var_A_foo_def replace_foo del: ReplaceAllStringFunc.simps)
  have b: "subst_one vm (vals(''A'' \<mapsto> ''foo'')) var_B_ref = var_B_foobar" for vals
    by (simp add: subst_one_def var_B_ref_def var_B_foobar_def replace_ref del: ReplaceAllStringFunc.simps)
  have nv: "name var_A_foo = ''A''" "val var_A_foo = ''foo''" by (simp_all add: var_A_foo_def)
  show ?thesis
    by (simp only: substitutevars_foldl list.map apply_level_default [OF n] subst_foldl_Cons
          a nv b foldl_Nil snd_conv)
qed

lemma subst_sq:
  "substitutevars w (lax_source p) env [var_A_foo, var_B_literal] vm = [var_A_foo, var_B_literal]"
proof -
  have n: "sublevel (lax_source p) = None" by (simp add: lax_source_def)
  have a: "subst_one vm vals var_A_foo = var_A_foo" for vals
    by (simp add: subst_one_def var_A_foo_def replace_foo del: ReplaceAllStringFunc.simps)
  have b: "subst_one vm vals var_B_literal = var_B_literal" for vals
    by (simp add: subst_one_def var_B_literal_def)
  show ?thesis
    by (simp only: substitutevars_foldl list.map apply_level_default [OF n] subst_foldl_Cons
          a b foldl_Nil snd_conv)
qed

lemma prioritysort_single: "prioritysort [s] = [s]"
  by (simp add: prioritysort_def bypriority_def sort_priorities_def enumerate_simps)

lemma parse_lax_file:
  "readFile w p = Inr content \<Longrightarrow> parse w cfg (lax_source p) = parseLax_loop (warn cfg) content [] []"
  by (simp add: parse_def parseLax_def lax_source_def)

lemma uniq_foldl_no_tombstone_all:
  "list_all (\<lambda>v. \<not> tombstone v) xs \<Longrightarrow> list_all (\<lambda>v. \<not> tombstone v) (u_vars st) \<Longrightarrow>
   list_all (\<lambda>v. \<not> tombstone v) (u_vars (foldl uniq_step st xs))"
proof (induction xs arbitrary: st)
  case Nil
  then show ?case by simp
next
  case (Cons x xs)
  then have "list_all (\<lambda>v. \<not> tombstone v) (u_vars (uniq_step st x))"
    by (simp add: uniq_step_def split: option.splits)
  with Cons show ?case by simp
qed

lemma map_add_upd_dom: "k \<in> dom m2 \<Longrightarrow> m1(k \<mapsto> x) ++ m2 = m1 ++ m2"
  by (auto simp: map_add_def fun_eq_iff split: option.splits)

lemma uniq_foldl_map_of:
  "uniq_inv st \<Longrightarrow> list_all (\<lambda>v. \<not> tombstone v) xs \<Longrightarrow>
   map_of (map (\<lambda>v. (name v, val v)) (u_vars (foldl uniq_step st xs))) =
   map_of (map (\<lambda>v. (name v, val v)) (u_vars st @ xs))"
proof (induction xs arbitrary: st)
  case Nil
  show ?case by simp
next
  case (Cons x xs)
  let ?kv = "\<lambda>v. (name v, val v)"
  from Cons.prems have nt: "\<not> tombstone x" and rest: "list_all (\<lambda>v. \<not> tombstone v) xs"
    by simp_all
  have inv': "uniq_inv (uniq_step st x)" by (rule uniq_inv_step [OF Cons.prems(1)])
  have ih: "map_of (map ?kv (u_vars (foldl uniq_step (uniq_step st x) xs))) =
            map_of (map ?kv (u_vars (uniq_step st x) @ xs))"
    by (rule Cons.IH [OF inv' rest])
  show ?case
  proof (cases "u_varindex st (name x)")
    case None
    then have "u_vars (uniq_step st x) = u_vars st @ [x]" by (simp add: uniq_step_def)
    with ih show ?thesis by simp
  next
    case (Some i)
    with nt have same: "uniq_step st x = st" by (simp add: uniq_step_def)
    from Cons.prems(1) Some have "i < length (u_vars st)" "name (u_vars st ! i) = name x"
      by (auto simp: uniq_inv_def)
    then have "name x \<in> name ` set (u_vars st)" by (metis imageI nth_mem)
    then have "name x \<in> dom (map_of (map ?kv (u_vars st)))"
      by (simp add: dom_map_of_conv_image_fst image_image)
    then have "map_of (map ?kv (u_vars st @ x # xs)) = map_of (map ?kv (u_vars st @ xs))"
      by (simp add: map_add_upd_dom)
    with ih same show ?thesis by simp
  qed
qed

lemma setvars_map_of:
  assumes "list_all (\<lambda>v. \<not> tombstone v) xs"
  shows "map_of (map (\<lambda>v. (name v, val v)) (setvars xs)) = map_of (map (\<lambda>v. (name v, val v)) xs)"
proof -
  have "list_all (\<lambda>v. \<not> tombstone v) (u_vars (foldl uniq_step uniq_init xs))"
    by (rule uniq_foldl_no_tombstone_all [OF assms]) (simp add: uniq_init_def)
  then have "setvars xs = u_vars (foldl uniq_step uniq_init xs)"
    by (simp add: setvars_def uniqVarsByName_def Let_def list_all_iff)
  with uniq_foldl_map_of [OF uniq_inv_init assms] show ?thesis
    by (simp add: uniq_init_def)
qed

lemma subst_foldl_names:
  "map name (snd (foldl (subst_step vm) (vals, []) rs)) = map name rs"
proof (induction rs arbitrary: vals)
  case Nil
  show ?case by simp
next
  case (Cons r rs)
  show ?case
    by (simp only: subst_foldl_Cons list.map Cons.IH) (simp add: subst_one_def)
qed

lemma substitutevars_names: "map name (substitutevars w src env rs vm) = map name rs"
  by (simp add: substitutevars_foldl subst_foldl_names apply_level_def comp_def)

lemma lax_run_final:
  assumes p: "parse w cfg (lax_source path) = ([], Inr batch)"
    and sub: "\<And>env. substitutevars w (lax_source path) env batch (varmatch cfg) = [var_A_foo, b]"
    and b: "name b = ''B''" "\<not> tombstone b"
    and e: "clearEnv cfg \<or> ''B'' \<notin> name ` parsevar ` set (environ w)"
  shows "\<exists>fv c lg. main_core w cfg [lax_source path] [] = Completed fv c lg \<and>
           map_of (map (\<lambda>v. (name v, val v)) fv) ''B'' = Some (val b)"
proof -
  let ?kv = "\<lambda>v. (name v, val v)"
  have nt: "list_all (\<lambda>v. \<not> tombstone v) [var_A_foo, b]"
    using b by (simp add: var_A_foo_def)
  have vb: "map_of (map ?kv [var_A_foo, b]) ''B'' = Some (val b)"
    using b by (simp add: var_A_foo_def)
  show ?thesis
  proof (cases "clearEnv cfg")
    case True
    then have "main_core w cfg [lax_source path] [] = Completed (setvars [var_A_foo, b]) [''sh''] []"
      by (simp add: main_core_def prioritysort_single p sub)
    with setvars_map_of [OF nt] vb show ?thesis by simp
  next
    case False
    with e have nb: "''B'' \<notin> name ` parsevar ` set (environ w)" by simp
    let ?E = "substitutevars w osenv_source [] (map parsevar (environ w)) (varmatch cfg)"
    have s: "prioritysort [osenv_source, lax_source path] = [osenv_source, lax_source path]"
      using prioritysort_two [of osenv_source "lax_source path"]
      by (simp add: rank_simps osenv_source_def lax_source_def)
    have o: "parse w cfg osenv_source = ([], Inr (map parsevar (environ w)))"
      by (simp add: parse_def osenv_source_def parseOsEnviron_def)
    have m: "main_core w cfg [lax_source path] [] =
               Completed (setvars (?E @ [var_A_foo, b])) [''sh''] []"
      using False by (simp add: main_core_def s o p sub)
    have ntE: "list_all (\<lambda>v. \<not> tombstone v) ?E"
      by (rule substitutevars_no_tombstone) (simp add: list_all_iff parsevar_no_tombstone)
    have "map name ?E = map name (map parsevar (environ w))" by (rule substitutevars_names)
    then have "set (map name ?E) = set (map name (map parsevar (environ w)))" by simp
    with nb have "''B'' \<notin> name ` set ?E" by (simp add: image_image)
    then have "map_of (map ?kv ?E) ''B'' = None"
      by (simp add: map_of_eq_None_iff image_image)
    then have "map_of (map ?kv (?E @ [var_A_foo, b])) ''B'' = Some (val b)"
      using vb by (simp add: map_add_def)
    moreover have "list_all (\<lambda>v. \<not> tombstone v) (?E @ [var_A_foo, b])"
      using ntE nt by simp
    ultimately have "map_of (map ?kv (setvars (?E @ [var_A_foo, b]))) ''B'' = Some (val b)"
      by (simp only: setvars_map_of)
    with m show ?thesis by blast
  qed
qed

text \<open>
  Claim C5. For a lax source whose file is \<^verbatim>\<open>A=foo\<close> followed by \<^verbatim>\<open>B="${A}bar"\<close>, with
  the default level \<^verbatim>\<open>maybesub\<close>, the value of \<^verbatim>\<open>B\<close> after interpolation is
  \<^verbatim>\<open>foobar\<close>, whatever the OS environment, the earlier assignments and the pattern are,
  and the final mapping of a run with this source binds \<^verbatim>\<open>B\<close> to \<^verbatim>\<open>foobar\<close>; when the
  second line is \<^verbatim>\<open>B='${A}bar'\<close> the value is the literal \<^verbatim>\<open>${A}bar\<close>. The final mapping
  is that of a run in which the OS environment is cleared or does not define \<^verbatim>\<open>B\<close>
  itself (an assignment of the environment comes first in the merge).
\<close>

theorem lax_interpolation_example:
  assumes "readFile w p = Inr double_quoted_file"
    and "readFile w q = Inr two_line_single_quoted_file"
  shows "parse w cfg (lax_source p) = ([], Inr [var_A_foo, var_B_ref]) \<and>
         substitutevars w (lax_source p) env [var_A_foo, var_B_ref] vm = [var_A_foo, var_B_foobar] \<and>
         (clearEnv cfg \<or> ''B'' \<notin> name ` parsevar ` set (environ w) \<longrightarrow>
            (\<exists>fv c lg. main_core w cfg [lax_source p] [] = Completed fv c lg \<and>
               map_of (map (\<lambda>v. (name v, val v)) fv) ''B'' = Some ''foobar'')) \<and>
         parse w cfg (lax_source q) = ([], Inr [var_A_foo, var_B_literal]) \<and>
         substitutevars w (lax_source q) env [var_A_foo, var_B_literal] vm = [var_A_foo, var_B_literal] \<and>
         (clearEnv cfg \<or> ''B'' \<notin> name ` parsevar ` set (environ w) \<longrightarrow>
            (\<exists>fv c lg. main_core w cfg [lax_source q] [] = Completed fv c lg \<and>
               map_of (map (\<lambda>v. (name v, val v)) fv) ''B'' = Some ''${A}bar''))"
proof (intro conjI impI)
  show p: "parse w cfg (lax_source p) = ([], Inr [var_A_foo, var_B_ref])"
    using parse_lax_file [OF assms(1)] by (simp add: dq_loop)
  show q: "parse w cfg (lax_source q) = ([], Inr [var_A_foo, var_B_literal])"
    using parse_lax_file [OF assms(2)] by (simp add: sq_loop)
  show "substitutevars w (lax_source p) env [var_A_foo, var_B_ref] vm = [var_A_foo, var_B_foobar]"
    by (rule subst_dq)
  show "substitutevars w (lax_source q) env [var_A_foo, var_B_literal] vm = [var_A_foo, var_B_literal]"
    by (rule subst_sq)
  assume e: "clearEnv cfg \<or> ''B'' \<notin> name ` parsevar ` set (environ w)"
  from lax_run_final [OF p subst_dq _ _ e]
  show "\<exists>fv c lg. main_core w cfg [lax_source p] [] = Completed fv c lg \<and>
          map_of (map (\<lambda>v. (name v, val v)) fv) ''B'' = Some ''foobar''"
    by (simp add: var_B_foobar_def)
  from lax_run_final [OF q subst_sq _ _ e]
  show "\<exists>fv c lg. main_core w cfg [lax_source q] [] = Completed fv c lg \<and>
          map_of (map (\<lambda>v. (name v, val v)) fv) ''B'' = Some ''${A}bar''"
    by (simp add: var_B_literal_def)
qed

lemma two_files_run:
  "main_core world_two_files default_config [lax_source ''dq.env''] [] =
     Completed [\<lparr>name = ''A'', val = ''other'', allowsubs = False, tombstone = False\<rparr>,
                \<lparr>name = ''HOME'', val = ''/root'', allowsubs = False, tombstone = False\<rparr>,
                var_B_foobar] [''sh''] []"
  "main_core world_two_files default_config [lax_source ''sq.env''] [] =
     Completed [\<lparr>name = ''A'', val = ''other'', allowsubs = False, tombstone = False\<rparr>,
                \<lparr>name = ''HOME'', val = ''/root'', allowsubs = False, tombstone = False\<rparr>,
                var_B_literal] [''sh''] []"
  by code_simp+

theorem lax_interpolation_example_witness:
  "(\<exists>fv c lg. main_core world_two_files default_config [lax_source ''dq.env''] [] = Completed fv c lg \<and>
      map_of (map (\<lambda>v. (name v, val v)) fv) ''B'' = Some ''foobar'') \<and>
   (\<exists>fv c lg. main_core world_two_files default_config [lax_source ''sq.env''] [] = Completed fv c lg \<and>
      map_of (map (\<lambda>v. (name v, val v)) fv) ''B'' = Some ''${A}bar'') \<and>
   parse world_two_files default_config (lax_source ''dq.env'') = ([], Inr [var_A_foo, var_B_ref]) \<and>
   parse world_two_files default_config (lax_source ''sq.env'') = ([], Inr [var_A_foo, var_B_literal])"
proof -
  have a: "readFile world_two_files ''dq.env'' = Inr double_quoted_file"
    by (simp add: world_two_files_def)
  have b: "readFile world_two_files ''sq.env'' = Inr two_line_single_quoted_file"
    by (simp add: world_two_files_def)
  have e: "''B'' \<notin> name ` parsevar ` set (environ world_two_files)"
    by (simp add: world_two_files_def no_world_def parsevar_def)
  from lax_interpolation_example [OF a b, of default_config] e show ?thesis by simp
qed

end
